theory Spec2Isabelle
  imports Complex_Main "HOL-Library.Word" "HOL-Library.Log_Nat"
begin

unbundle bit_operations_syntax

section \<open>Gimbal wire protocol (scripts/rpi/test.py)\<close>

text \<open>
  A Python \<open>bytes\<close> object is a list of 8-bit words; a Python \<open>int\<close> is an \<open>int\<close>.
  The exceptions the code can raise are values of \<open>error\<close>: \<open>struct.pack\<close> and
  \<open>struct.unpack\<close> raise \<open>struct.error\<close> on a value out of range or a buffer of the
  wrong size, indexing raises \<open>IndexError\<close>, \<open>list.index\<close> raises \<open>ValueError\<close>.
\<close>

type_synonym byte = "8 word"
type_synonym bytes = "byte list"

datatype error = StructError | IndexError | ValueError

definition STX :: bytes where
  "STX = [0x55, 0x66]"

subsection \<open>struct.pack / struct.unpack, little-endian\<close>

definition pack_B :: "int \<Rightarrow> error + bytes" where
  "pack_B v = (if 0 \<le> v \<and> v \<le> 255 then Inr [word_of_int v] else Inl StructError)"

definition pack_H :: "int \<Rightarrow> error + bytes" where
  "pack_H v = (if 0 \<le> v \<and> v \<le> 65535
               then Inr [word_of_int v, word_of_int (drop_bit 8 v)]
               else Inl StructError)"

definition pack_h :: "int \<Rightarrow> error + bytes" where
  "pack_h v = (if - 32768 \<le> v \<and> v \<le> 32767
               then Inr [word_of_int v, word_of_int (drop_bit 8 v)]
               else Inl StructError)"

text \<open>\<open>struct.pack("<BHHB", a, b, c, d)\<close>\<close>

definition pack_BHHB :: "int \<Rightarrow> int \<Rightarrow> int \<Rightarrow> int \<Rightarrow> error + bytes" where
  "pack_BHHB a b c d =
     (case pack_B a of Inl e \<Rightarrow> Inl e | Inr pa \<Rightarrow>
     (case pack_H b of Inl e \<Rightarrow> Inl e | Inr pb \<Rightarrow>
     (case pack_H c of Inl e \<Rightarrow> Inl e | Inr pc \<Rightarrow>
     (case pack_B d of Inl e \<Rightarrow> Inl e | Inr pd \<Rightarrow> Inr (pa @ pb @ pc @ pd)))))"

text \<open>\<open>struct.unpack("<H", bs)[0]\<close>: the buffer must hold exactly two bytes.\<close>

definition unpack_H :: "bytes \<Rightarrow> error + int" where
  "unpack_H bs = (case bs of [lo, hi] \<Rightarrow> Inr (uint lo + 256 * uint hi) | _ \<Rightarrow> Inl StructError)"

text \<open>\<open>raw[i]\<close> for a non-negative index \<open>i\<close>.\<close>

definition byte_at :: "bytes \<Rightarrow> nat \<Rightarrow> error + int" where
  "byte_at raw i = (if i < length raw then Inr (uint (raw ! i)) else Inl IndexError)"

subsection \<open>crc16_xmodem\<close>

text \<open>The body of the inner loop \<open>for _ in range(8)\<close>.\<close>

definition crc_shift :: "int \<Rightarrow> int" where
  "crc_shift crc = (if crc AND 0x8000 \<noteq> 0
                    then (push_bit 1 crc AND 0xFFFF) XOR 0x1021
                    else push_bit 1 crc AND 0xFFFF)"

text \<open>The body of the outer loop \<open>for b in data\<close>.\<close>

definition crc_byte :: "int \<Rightarrow> byte \<Rightarrow> int" where
  "crc_byte crc b = (crc_shift ^^ 8) (crc XOR (push_bit 8 (uint b) AND 0xFFFF))"

definition crc16_xmodem :: "bytes \<Rightarrow> int \<Rightarrow> int" where
  "crc16_xmodem data init = foldl crc_byte (init AND 0xFFFF) data AND 0xFFFF"

subsection \<open>build_packet and parse_packet\<close>

definition build_packet :: "int \<Rightarrow> bytes \<Rightarrow> int \<Rightarrow> bool \<Rightarrow> error + bytes" where
  "build_packet cmd_id data seq need_ack =
     (let ctrl = (if need_ack then 0x01 else 0x00) in
      case pack_BHHB ctrl (int (length data)) seq cmd_id of
        Inl e \<Rightarrow> Inl e
      | Inr packed \<Rightarrow>
          let header = STX @ packed;
              body = header @ data;
              crc = crc16_xmodem body 0x0000
          in (case pack_H crc of Inl e \<Rightarrow> Inl e | Inr c \<Rightarrow> Inr (body @ c)))"

text \<open>
  The result is \<open>Inl\<close> for a raised exception, \<open>Inr None\<close> for Python's \<open>None\<close> and
  \<open>Inr (Some (ctrl, seq, cmd_id, data))\<close> for the returned tuple. The slices
  \<open>raw[-2:]\<close>, \<open>raw[:-2]\<close>, \<open>raw[a:b]\<close> are \<open>drop\<close> and \<open>take\<close>: a Python slice never
  raises and is cut at the end of the buffer.
\<close>

definition parse_packet :: "bytes \<Rightarrow> error + (int \<times> int \<times> int \<times> bytes) option" where
  "parse_packet raw =
     (if length raw < 10 \<or> take 2 raw \<noteq> STX then Inr None
      else (case unpack_H (drop (length raw - 2) raw) of Inl e \<Rightarrow> Inl e | Inr recv_crc \<Rightarrow>
        (let calc_crc = crc16_xmodem (take (length raw - 2) raw) 0x0000 in
         if recv_crc \<noteq> calc_crc then Inr None
         else
          (case byte_at raw 2 of Inl e \<Rightarrow> Inl e | Inr ctrl \<Rightarrow>
          (case unpack_H (take 2 (drop 3 raw)) of Inl e \<Rightarrow> Inl e | Inr data_len \<Rightarrow>
          (case unpack_H (take 2 (drop 5 raw)) of Inl e \<Rightarrow> Inl e | Inr seq \<Rightarrow>
          (case byte_at raw 7 of Inl e \<Rightarrow> Inl e | Inr cmd_id \<Rightarrow>
            Inr (Some (ctrl, seq, cmd_id, take (nat data_len) (drop 8 raw))))))))))"

text \<open>
  The corruption the single-bit-flip test applies to a frame: bit \<open>k\<close> of byte \<open>i\<close>
  is inverted, every other bit is kept.
\<close>

definition flip_bit_at :: "bytes \<Rightarrow> nat \<Rightarrow> nat \<Rightarrow> bytes" where
  "flip_bit_at raw i k = raw[i := (raw ! i) XOR push_bit k 1]"

section \<open>Python numbers\<close>

text \<open>
  A Python \<open>int\<close> is an \<open>int\<close>. A Python \<open>float\<close> is an IEEE 754 double, that is a
  rational number \<open>m * 2 ^ q\<close> with \<open>\<bar>m\<bar> < 2 ^ 53\<close>, and is modelled by that
  rational. NaN and the infinities are not modelled.
\<close>

text \<open>Python 3 \<open>round(x)\<close> with one argument: the nearest integer, a tie going to the even one.\<close>

definition py_round :: "rat \<Rightarrow> int" where
  "py_round x =
     (let f = \<lfloor>x\<rfloor>; d = x - of_int f
      in if d < 1 / 2 then f
         else if 1 / 2 < d then f + 1
         else if even f then f else f + 1)"

text \<open>\<open>int(x)\<close> on a float: truncation towards zero.\<close>

definition py_int :: "rat \<Rightarrow> int" where
  "py_int x = (if 0 \<le> x then \<lfloor>x\<rfloor> else \<lceil>x\<rceil>)"

text \<open>
  The binary exponent of a positive rational: the \<open>e\<close> with
  \<open>2 ^ e \<le> x < 2 ^ (e + 1)\<close>, read off the bit length of the integer part of \<open>x\<close>,
  or of \<open>1 / x\<close> when \<open>x < 1\<close>.
\<close>

definition expo :: "rat \<Rightarrow> int" where
  "expo x = (if 1 \<le> x then bitlen \<lfloor>x\<rfloor> - 1 else - bitlen (\<lceil>1 / x\<rceil> - 1))"

text \<open>
  A float operation returns the exact result rounded to the nearest double, a tie going
  to the even significand. \<open>to_double\<close> is this rounding: the significand has 53
  bits, the exponent goes down to that of the subnormal numbers; a result of magnitude
  \<open>2 ^ 1024\<close> or more, which overflows, is not modelled. It is applied where the code
  computes \<open>yaw_deg * 10.0\<close> and the quotients, sums and differences of the crop, and
  to the literal \<open>1.01\<close>. Comparisons, \<open>max\<close> and \<open>min\<close> are exact on doubles.
  The zoom update of \<open>_apply_joystick\<close> and the quotients by \<open>10.0\<close> of a reply are
  kept as an exact sum and exact quotients.
\<close>

definition to_double :: "rat \<Rightarrow> rat" where
  "to_double x =
     (if x = 0 then 0
      else (let q = max (expo \<bar>x\<bar>) (- 1022) - 52
            in of_int (py_round (x / 2 powi q)) * 2 powi q))"

section \<open>Command channel (scripts/rpi/test.py)\<close>

definition YAW_MIN :: rat where "YAW_MIN = - 135"
definition YAW_MAX :: rat where "YAW_MAX = 135"
definition PITCH_MIN :: rat where "PITCH_MIN = - 90"
definition PITCH_MAX :: rat where "PITCH_MAX = 45"

definition clamp :: "rat \<Rightarrow> rat \<Rightarrow> rat \<Rightarrow> rat" where
  "clamp v a b = max a (min b v)"

text \<open>\<open>struct.pack("<hh", a, b)\<close>\<close>

definition pack_hh :: "int \<Rightarrow> int \<Rightarrow> error + bytes" where
  "pack_hh a b =
     (case pack_h a of Inl e \<Rightarrow> Inl e | Inr pa \<Rightarrow>
     (case pack_h b of Inl e \<Rightarrow> Inl e | Inr pb \<Rightarrow> Inr (pa @ pb)))"

text \<open>One little-endian signed 16-bit value.\<close>

definition le_i16 :: "byte \<Rightarrow> byte \<Rightarrow> int" where
  "le_i16 lo hi = (let u = uint lo + 256 * uint hi in if 32768 \<le> u then u - 65536 else u)"

fun shorts :: "bytes \<Rightarrow> int list" where
  "shorts (lo # hi # rest) = le_i16 lo hi # shorts rest"
| "shorts _ = []"

text \<open>
  \<open>struct.unpack("<h...h", bs)\<close> with \<open>n\<close> fields: the buffer must hold exactly
  \<open>2 * n\<close> bytes.
\<close>

definition unpack_hs :: "nat \<Rightarrow> bytes \<Rightarrow> error + int list" where
  "unpack_hs n bs = (if length bs = 2 * n then Inr (shorts bs) else Inl StructError)"

text \<open>
  What one polling window observes, in order. Every turn of the loop
  \<open>while time.time() - t0 < TIMEOUT_S\<close> either finds the window elapsed at the clock
  test (\<open>WindowElapsed\<close>), or has \<open>recvfrom\<close> raise \<open>socket.timeout\<close>
  (\<open>SocketTimeout\<close>), or receives one datagram and goes on with the rest. A
  datagram is the byte string \<open>recvfrom(2048)\<close> returns. The clock readings
  themselves are not modelled.
\<close>

datatype inbound = WindowElapsed | SocketTimeout | Datagram bytes inbound

text \<open>The socket: the datagrams handed to \<open>sendto\<close>, oldest first.\<close>

record sock =
  sent :: "bytes list"

definition sendto :: "sock \<Rightarrow> bytes \<Rightarrow> sock" where
  "sendto s pkt = s\<lparr>sent := sent s @ [pkt]\<rparr>"

text \<open>The polling loop of \<open>request_attitude\<close>; \<open>None\<close> is the final \<open>return None\<close>.\<close>

fun request_attitude_poll :: "inbound \<Rightarrow> error + (rat \<times> rat \<times> rat) option" where
  "request_attitude_poll WindowElapsed = Inr None"
| "request_attitude_poll SocketTimeout = Inr None"
| "request_attitude_poll (Datagram raw rest) =
     (case parse_packet raw of
        Inl e \<Rightarrow> Inl e
      | Inr None \<Rightarrow> request_attitude_poll rest
      | Inr (Some (ctrl, rseq, cmd_id, data)) \<Rightarrow>
          if cmd_id = 0x0D \<and> 12 \<le> length data then
            (case unpack_hs 6 (take 12 data) of
               Inl e \<Rightarrow> Inl e
             | Inr vs \<Rightarrow>
                 Inr (Some (of_int (vs ! 0) / 10, of_int (vs ! 1) / 10, of_int (vs ! 2) / 10)))
          else request_attitude_poll rest)"

definition request_attitude ::
  "sock \<Rightarrow> inbound \<Rightarrow> int \<Rightarrow> error + ((rat \<times> rat \<times> rat) option \<times> sock)" where
  "request_attitude s env seq =
     (case build_packet 0x0D [] seq True of
        Inl e \<Rightarrow> Inl e
      | Inr pkt \<Rightarrow>
          (case request_attitude_poll env of
             Inl e \<Rightarrow> Inl e
           | Inr r \<Rightarrow> Inr (r, sendto s pkt)))"

text \<open>
  The polling loop of \<open>set_angles_with_ack\<close>. The result is the first two components
  of the returned triple: \<open>(True, (cy/10, cp/10, cr/10))\<close> or \<open>(False, None)\<close>.
\<close>

fun set_angles_poll :: "inbound \<Rightarrow> error + (bool \<times> (rat \<times> rat \<times> rat) option)" where
  "set_angles_poll WindowElapsed = Inr (False, None)"
| "set_angles_poll SocketTimeout = Inr (False, None)"
| "set_angles_poll (Datagram raw rest) =
     (case parse_packet raw of
        Inl e \<Rightarrow> Inl e
      | Inr None \<Rightarrow> set_angles_poll rest
      | Inr (Some (ctrl, rseq, cmd_id, rdata)) \<Rightarrow>
          (let is_ack = (ctrl AND 0x02 \<noteq> 0) in
           if cmd_id = 0x0E \<and> is_ack \<and> 6 \<le> length rdata then
             (case unpack_hs 3 (take 6 rdata) of
                Inl e \<Rightarrow> Inl e
              | Inr vs \<Rightarrow>
                  Inr (True, Some (of_int (vs ! 0) / 10, of_int (vs ! 1) / 10, of_int (vs ! 2) / 10)))
           else set_angles_poll rest))"

definition set_angles_with_ack ::
  "sock \<Rightarrow> inbound \<Rightarrow> int \<Rightarrow> rat \<Rightarrow> rat
   \<Rightarrow> error + ((bool \<times> (rat \<times> rat \<times> rat) option \<times> (rat \<times> rat)) \<times> sock)" where
  "set_angles_with_ack s env seq yaw_deg0 pitch_deg0 =
     (let yaw_deg = clamp yaw_deg0 YAW_MIN YAW_MAX;
          pitch_deg = clamp pitch_deg0 PITCH_MIN PITCH_MAX
      in case pack_hh (py_round (to_double (yaw_deg * 10))) (py_round (to_double (pitch_deg * 10))) of
           Inl e \<Rightarrow> Inl e
         | Inr data \<Rightarrow>
             (case build_packet 0x0E data seq True of
                Inl e \<Rightarrow> Inl e
              | Inr pkt \<Rightarrow>
                  (case set_angles_poll env of
                     Inl e \<Rightarrow> Inl e
                   | Inr (ok, ack) \<Rightarrow> Inr ((ok, ack, (yaw_deg, pitch_deg)), sendto s pkt))))"

text \<open>
  The vocabulary of the claims about polling: the datagrams a window delivers, the payload
  of a buffer that decodes, and the two tests a reply has to pass.
\<close>

fun datagrams :: "inbound \<Rightarrow> bytes list" where
  "datagrams WindowElapsed = []"
| "datagrams SocketTimeout = []"
| "datagrams (Datagram raw rest) = raw # datagrams rest"

definition frame_payload :: "bytes \<Rightarrow> bytes" where
  "frame_payload raw =
     (case parse_packet raw of Inr (Some (ctrl, seq, cmd_id, data)) \<Rightarrow> data | _ \<Rightarrow> [])"

definition attitude_reply :: "bytes \<Rightarrow> bool" where
  "attitude_reply raw =
     (case parse_packet raw of
        Inr (Some (ctrl, seq, cmd_id, data)) \<Rightarrow> cmd_id = 0x0D \<and> 12 \<le> length data
      | _ \<Rightarrow> False)"

definition angles_ack :: "bytes \<Rightarrow> bool" where
  "angles_ack raw =
     (case parse_packet raw of
        Inr (Some (ctrl, seq, cmd_id, data)) \<Rightarrow>
          cmd_id = 0x0E \<and> ctrl AND 0x02 \<noteq> 0 \<and> 6 \<le> length data
      | _ \<Rightarrow> False)"

definition tenths3 :: "bytes \<Rightarrow> rat \<times> rat \<times> rat" where
  "tenths3 data = (of_int (shorts data ! 0) / 10, of_int (shorts data ! 1) / 10,
                   of_int (shorts data ! 2) / 10)"

text \<open>
  The outcome of a polling window as a function of the first datagram that passes the
  test: the decoded payload of that datagram, or the timeout value when there is none.
\<close>

definition attitude_outcome :: "inbound \<Rightarrow> (rat \<times> rat \<times> rat) option" where
  "attitude_outcome env =
     (case find attitude_reply (datagrams env) of
        None \<Rightarrow> None
      | Some raw \<Rightarrow> Some (tenths3 (frame_payload raw)))"

definition angles_outcome :: "inbound \<Rightarrow> bool \<times> (rat \<times> rat \<times> rat) option" where
  "angles_outcome env =
     (case find angles_ack (datagrams env) of
        None \<Rightarrow> (False, None)
      | Some raw \<Rightarrow> (True, Some (tenths3 (frame_payload raw))))"

section \<open>Virtual PTZ pipeline (source/vision/ptz.py, scripts/rpi/yolo_tracker.py)\<close>

text \<open>
  A target is the dictionary built by the tracker; only the keys \<open>"id"\<close> and
  \<open>"bbox"\<close> are read here. \<open>ident\<close> is \<open>None\<close> when the tracker has no track id,
  \<open>bbox\<close> is the list of coordinates. Floats are rationals, as above.
\<close>

record target =
  ident :: "int option"
  bbox :: "rat list"

text \<open>The fields of \<open>PTZPipeline\<close> that the joystick, the selection and the crop use.\<close>

record ptz =
  zoom_min :: rat
  zoom_max :: rat
  zoom_step :: rat
  zoom :: rat
  force_wide :: bool
  active_target_id :: "int option"

text \<open>The \<open>"ptz"\<close> section of the configuration; \<open>None\<close> is a missing key.\<close>

record ptz_config =
  cfg_zoom_min :: "rat option"
  cfg_zoom_max :: "rat option"
  cfg_zoom_step :: "rat option"

definition get_or :: "'a \<Rightarrow> 'a option \<Rightarrow> 'a" where
  "get_or d v = (case v of None \<Rightarrow> d | Some x \<Rightarrow> x)"

text \<open>\<open>PTZPipeline.__init__\<close>\<close>

definition ptz_init :: "ptz_config \<Rightarrow> ptz" where
  "ptz_init cfg =
     \<lparr>zoom_min = get_or 1 (cfg_zoom_min cfg),
      zoom_max = get_or 3 (cfg_zoom_max cfg),
      zoom_step = get_or (1 / 10) (cfg_zoom_step cfg),
      zoom = get_or 1 (cfg_zoom_min cfg),
      force_wide = False,
      active_target_id = None\<rparr>"

text \<open>
  The dictionary returned by \<open>joystick.poll()\<close>, read with \<open>.get\<close>;
  \<open>JoystickController.poll\<close> always returns the three keys.
\<close>

record updates =
  target_delta :: int
  zoom_delta :: int
  wide :: bool

text \<open>The identity of the target at position \<open>idx\<close>: its id, or \<open>idx\<close> when it has none.\<close>

definition identity :: "nat \<Rightarrow> target \<Rightarrow> int" where
  "identity idx t = (case ident t of None \<Rightarrow> int idx | Some tid \<Rightarrow> tid)"

text \<open>The loop \<open>for idx, t in enumerate(targets)\<close> that fills \<open>ids\<close>, started at \<open>idx\<close>.\<close>

fun ids_from :: "nat \<Rightarrow> target list \<Rightarrow> int list" where
  "ids_from idx [] = []"
| "ids_from idx (t # ts) = identity idx t # ids_from (Suc idx) ts"

text \<open>\<open>ids.index(a)\<close>: the first position of \<open>a\<close>, \<open>ValueError\<close> when there is none.\<close>

fun py_index :: "int list \<Rightarrow> int \<Rightarrow> error + nat" where
  "py_index [] a = Inl ValueError"
| "py_index (x # xs) a =
     (if x = a then Inr 0
      else (case py_index xs a of Inl e \<Rightarrow> Inl e | Inr i \<Rightarrow> Inr (Suc i)))"

text \<open>The first two \<open>if\<close> statements of \<open>_apply_joystick\<close>: wide reset, then zoom.\<close>

definition apply_wide_zoom :: "updates \<Rightarrow> ptz \<Rightarrow> ptz" where
  "apply_wide_zoom u self =
     (let s1 = (if wide u then self\<lparr>force_wide := True, zoom := zoom_min self\<rparr> else self)
      in if zoom_delta u \<noteq> 0
         then (let z = zoom s1 + of_int (zoom_delta u) * zoom_step s1
               in s1\<lparr>force_wide := False, zoom := max (zoom_min s1) (min (zoom_max s1) z)\<rparr>)
         else s1)"

text \<open>
  \<open>_apply_joystick\<close>; \<open>joystick\<close> is \<open>None\<close> when the pipeline has no joystick and
  otherwise holds what \<open>poll()\<close> returns. The result is the pipeline after the call.
\<close>

definition apply_joystick :: "updates option \<Rightarrow> target list \<Rightarrow> ptz \<Rightarrow> error + ptz" where
  "apply_joystick joystick targets self =
     (case joystick of
        None \<Rightarrow> Inr self
      | Some u \<Rightarrow>
          (let s2 = apply_wide_zoom u self in
           if target_delta u \<noteq> 0 \<and> targets \<noteq> [] then
             (let ids = ids_from 0 targets in
              if (case active_target_id s2 of None \<Rightarrow> True | Some a \<Rightarrow> a \<notin> set ids)
              then Inr (s2\<lparr>active_target_id := Some (hd ids)\<rparr>)
              else (case active_target_id s2 of
                      None \<Rightarrow> Inl ValueError
                    | Some a \<Rightarrow>
                        (case py_index ids a of
                           Inl e \<Rightarrow> Inl e
                         | Inr current_idx \<Rightarrow>
                             (let new_idx = (int current_idx + target_delta u) mod int (length ids)
                              in Inr (s2\<lparr>active_target_id := Some (ids ! nat new_idx),
                                         force_wide := False\<rparr>)))))
           else Inr s2))"











text \<open>The area of a box with four coordinates, as \<open>get_primary_target\<close> computes it.\<close>

definition area :: "target \<Rightarrow> rat" where
  "area t = (bbox t ! 2 - bbox t ! 0) * (bbox t ! 3 - bbox t ! 1)"

section \<open>Properties of the checksum\<close>

lemma and_ffff: "(x::int) AND 0xFFFF = x mod 65536"
proof -
  have "x AND 0xFFFF = x AND mask 16" by (simp add: mask_eq_exp_minus_1)
  also have "\<dots> = take_bit 16 x" by (simp add: take_bit_eq_mask)
  also have "\<dots> = x mod 65536" by (simp add: take_bit_eq_mod)
  finally show ?thesis .
qed

lemma and_8000: "0 \<le> x \<Longrightarrow> x < 65536 \<Longrightarrow> ((x::int) AND 0x8000 \<noteq> 0) = (32768 \<le> x)"
proof -
  assume a: "0 \<le> x" "x < 65536"
  have "(0x8000::int) = 2 ^ 15" by simp
  then have "(x AND 0x8000 \<noteq> 0) = bit x 15"
    by (simp only: and_exp_eq_0_iff_not_bit) simp
  also have "\<dots> = odd (x div 32768)" by (simp add: bit_iff_odd)
  also have "\<dots> = (32768 \<le> x)"
  proof -
    show ?thesis
    proof (cases "32768 \<le> x")
      case True
      have "x div 32768 = ((x - 32768) + 32768) div 32768" by simp
      also have "\<dots> = (x - 32768) div 32768 + 1" by (rule div_add_self2) simp
      also have "\<dots> = 1" using a True by (simp add: div_pos_pos_trivial)
      finally show ?thesis using True by simp
    next
      case False
      then show ?thesis using a by (simp add: div_pos_pos_trivial)
    qed
  qed
  finally show ?thesis .
qed

lemma crc_shift_arith:
  "0 \<le> c \<Longrightarrow> c < 65536 \<Longrightarrow>
   crc_shift c = (if 32768 \<le> c then (2 * c - 65536) XOR 0x1021 else 2 * c)"
proof -
  assume a: "0 \<le> c" "c < 65536"
  have m: "c * 2 mod 65536 = (if 32768 \<le> c then 2 * c - 65536 else 2 * c)"
  proof (cases "32768 \<le> c")
    case True
    have "(c * 2 - 65536) mod 65536 = c * 2 mod 65536" by (rule minus_mod_self2)
    moreover have "(c * 2 - 65536) mod 65536 = c * 2 - 65536"
      by (rule mod_pos_pos_trivial) (use a True in simp_all)
    ultimately show ?thesis using True by simp
  next
    case False
    then show ?thesis using a by (simp add: mod_pos_pos_trivial)
  qed
  show ?thesis using a by (simp add: crc_shift_def and_ffff and_8000 push_bit_eq_mult m)
qed

lemma xor_u16:
  "0 \<le> x \<Longrightarrow> x < 65536 \<Longrightarrow> 0 \<le> y \<Longrightarrow> y < 65536 \<Longrightarrow> 0 \<le> x XOR (y::int) \<and> x XOR y < 65536"
  using XOR_upper[of x 16 y] by simp

lemma xor_cancel_right: "(a::int) XOR c = b XOR c \<Longrightarrow> a = b"
proof -
  assume "a XOR c = b XOR c"
  then have "(a XOR c) XOR c = (b XOR c) XOR c" by simp
  then show "a = b" by (simp add: xor.assoc)
qed

lemma crc_shift_range:
  "0 \<le> c \<Longrightarrow> c < 65536 \<Longrightarrow> 0 \<le> crc_shift c \<and> crc_shift c < 65536"
  using xor_u16[of "2 * c - 65536" "0x1021"] by (simp add: crc_shift_arith)

lemma crc_shift_odd: "0 \<le> x \<Longrightarrow> x < 65536 \<Longrightarrow> odd (crc_shift x) = (32768 \<le> x)"
  by (simp add: crc_shift_arith even_xor_iff)

lemma crc_shift_inj:
  assumes "0 \<le> a" "a < 65536" "0 \<le> b" "b < 65536" "crc_shift a = crc_shift b"
  shows "a = b"
proof -
  from assms have same: "(32768 \<le> a) = (32768 \<le> b)"
    using crc_shift_odd[of a] crc_shift_odd[of b] by simp
  show ?thesis
  proof (cases "32768 \<le> a")
    case True
    with same assms have "(2 * a - 65536) XOR 0x1021 = (2 * b - 65536) XOR (0x1021::int)"
      by (simp add: crc_shift_arith)
    then have "2 * a - 65536 = 2 * b - 65536" by (rule xor_cancel_right)
    then show ?thesis by simp
  next
    case False
    with same assms show ?thesis by (simp add: crc_shift_arith)
  qed
qed

lemma funpow8: "(f ^^ 8) x = f (f (f (f (f (f (f (f x)))))))"
  by (simp add: eval_nat_numeral)

lemma crc_shift_pow_range:
  "0 \<le> c \<Longrightarrow> c < 65536 \<Longrightarrow> 0 \<le> (crc_shift ^^ n) c \<and> (crc_shift ^^ n) c < 65536"
proof (induction n)
  case 0
  then show ?case by simp
next
  case (Suc n)
  then have "0 \<le> (crc_shift ^^ n) c \<and> (crc_shift ^^ n) c < 65536" by blast
  then have "0 \<le> crc_shift ((crc_shift ^^ n) c) \<and> crc_shift ((crc_shift ^^ n) c) < 65536"
    using crc_shift_range by blast
  then show ?case by simp
qed

lemma crc_shift_pow_inj:
  "0 \<le> a \<Longrightarrow> a < 65536 \<Longrightarrow> 0 \<le> b \<Longrightarrow> b < 65536 \<Longrightarrow>
   (crc_shift ^^ n) a = (crc_shift ^^ n) b \<Longrightarrow> a = b"
proof (induction n)
  case 0
  then show ?case by simp
next
  case (Suc n)
  have "(crc_shift ^^ n) a = (crc_shift ^^ n) b"
    using Suc.prems crc_shift_pow_range[of a n] crc_shift_pow_range[of b n]
    by - (rule crc_shift_inj, simp_all)
  with Suc show ?case by simp
qed

lemma byte_term: "push_bit 8 (uint (b::byte)) AND 0xFFFF = 256 * uint b"
proof -
  have "uint b < 256" using uint_bounded[of b] by simp
  then have "uint b * 256 mod 65536 = uint b * 256"
    by - (rule mod_pos_pos_trivial, simp_all)
  then show ?thesis by (simp add: and_ffff push_bit_eq_mult)
qed

lemma byte_term_range: "0 \<le> 256 * uint (b::byte) \<and> 256 * uint b < 65536"
  using uint_bounded[of b] by simp

lemma crc_byte_range:
  "0 \<le> c \<Longrightarrow> c < 65536 \<Longrightarrow> 0 \<le> crc_byte c b \<and> crc_byte c b < 65536"
  unfolding crc_byte_def byte_term
  using xor_u16[of c "256 * uint b"] byte_term_range[of b]
  by - (rule crc_shift_pow_range, simp_all)

lemma crc_byte_inj_state:
  assumes "0 \<le> a" "a < 65536" "0 \<le> c" "c < 65536" "crc_byte a x = crc_byte c x"
  shows "a = c"
proof -
  have "a XOR 256 * uint x = c XOR 256 * uint x"
    using assms xor_u16[of a "256 * uint x"] xor_u16[of c "256 * uint x"] byte_term_range[of x]
    unfolding crc_byte_def byte_term
    by - (rule crc_shift_pow_inj[where n=8], simp_all)
  then show ?thesis by (rule xor_cancel_right)
qed

lemma crc_byte_inj_byte:
  assumes "0 \<le> c" "c < 65536" "crc_byte c x = crc_byte c y"
  shows "x = y"
proof -
  have "c XOR 256 * uint x = c XOR 256 * uint y"
    using assms xor_u16[of c "256 * uint x"] xor_u16[of c "256 * uint y"]
      byte_term_range[of x] byte_term_range[of y]
    unfolding crc_byte_def byte_term
    by - (rule crc_shift_pow_inj[where n=8], simp_all)
  then have "256 * uint x XOR c = 256 * uint y XOR c" by (simp add: xor.commute)
  then have "256 * uint x = 256 * uint y" by (rule xor_cancel_right)
  then show ?thesis by (simp add: word_uint_eq_iff)
qed

lemma foldl_crc_range:
  "0 \<le> s \<Longrightarrow> s < 65536 \<Longrightarrow> 0 \<le> foldl crc_byte s xs \<and> foldl crc_byte s xs < 65536"
proof (induction xs arbitrary: s)
  case Nil
  then show ?case by simp
next
  case (Cons x xs)
  have "0 \<le> crc_byte s x \<and> crc_byte s x < 65536"
    using Cons.prems crc_byte_range by blast
  then have "0 \<le> foldl crc_byte (crc_byte s x) xs \<and> foldl crc_byte (crc_byte s x) xs < 65536"
    using Cons.IH by blast
  then show ?case by simp
qed

lemma foldl_crc_inj_state:
  "0 \<le> s \<Longrightarrow> s < 65536 \<Longrightarrow> 0 \<le> t \<Longrightarrow> t < 65536 \<Longrightarrow>
   foldl crc_byte s xs = foldl crc_byte t xs \<Longrightarrow> s = t"
proof (induction xs arbitrary: s t)
  case Nil
  then show ?case by simp
next
  case (Cons x xs)
  have "crc_byte s x = crc_byte t x"
    using Cons.prems crc_byte_range[of s x] crc_byte_range[of t x]
    by - (rule Cons.IH, simp_all)
  with Cons.prems show ?case by - (rule crc_byte_inj_state[where x=x], simp_all)
qed

lemma foldl_crc_upd_neq:
  "i < length xs \<Longrightarrow> b \<noteq> xs ! i \<Longrightarrow> 0 \<le> s \<Longrightarrow> s < 65536 \<Longrightarrow>
   foldl crc_byte s (xs[i := b]) \<noteq> foldl crc_byte s xs"
proof (induction xs arbitrary: i s)
  case Nil
  then show ?case by simp
next
  case (Cons x xs)
  show ?case
  proof (cases i)
    case 0
    with Cons.prems have ne: "b \<noteq> x" by simp
    have "crc_byte s b \<noteq> crc_byte s x"
      using crc_byte_inj_byte[of s b x] Cons.prems ne by blast
    then have "foldl crc_byte (crc_byte s b) xs \<noteq> foldl crc_byte (crc_byte s x) xs"
      using foldl_crc_inj_state[of "crc_byte s b" "crc_byte s x" xs]
        crc_byte_range[of s b] crc_byte_range[of s x] Cons.prems by blast
    with 0 show ?thesis by simp
  next
    case (Suc j)
    with Cons.prems crc_byte_range[of s x] have
      "foldl crc_byte (crc_byte s x) (xs[j := b]) \<noteq> foldl crc_byte (crc_byte s x) xs"
      by - (rule Cons.IH, simp_all)
    with Suc show ?thesis by simp
  qed
qed

lemma crc16_range: "0 \<le> crc16_xmodem d i \<and> crc16_xmodem d i < 65536"
  by (simp add: crc16_xmodem_def and_ffff)

lemma crc16_zero_init: "crc16_xmodem d 0 = foldl crc_byte 0 d"
  using foldl_crc_range[of 0 d] by (simp add: crc16_xmodem_def and_ffff mod_pos_pos_trivial)

lemma crc16_upd_neq:
  "i < length xs \<Longrightarrow> b \<noteq> xs ! i \<Longrightarrow> crc16_xmodem (xs[i := b]) 0 \<noteq> crc16_xmodem xs 0"
  using foldl_crc_upd_neq[of i xs b 0] by (simp add: crc16_zero_init)

section \<open>Properties of the rounding\<close>

lemma bitlen_pos: "0 < n \<Longrightarrow> 1 \<le> bitlen n"
  by (auto simp: bitlen_alt_def)

lemma expo_bounds:
  assumes "0 < x"
  shows "2 powi (expo x) \<le> x \<and> x < 2 powi (expo x + 1)"
proof (cases "1 \<le> x")
  case True
  define n where "n = \<lfloor>x\<rfloor>"
  have n: "0 < n" using True by (simp add: n_def)
  define k where "k = bitlen n - 1"
  have k: "0 \<le> k" using bitlen_pos[OF n] by (simp add: k_def)
  have e: "expo x = k" using True by (simp add: expo_def n_def k_def)
  from bitlen_bounds[OF n] have b: "2 ^ nat k \<le> n" "n < 2 ^ nat (k + 1)"
    by (simp_all add: k_def)
  have "(2::rat) powi k = of_int (2 ^ nat k)" using k by (simp add: power_int_nonneg_exp)
  also have "\<dots> \<le> of_int n" using b(1) by (simp only: of_int_le_iff)
  also have "\<dots> \<le> x" by (simp add: n_def)
  finally have lo: "2 powi k \<le> x" .
  have "x < of_int (n + 1)" using floor_correct[of x] by (simp add: n_def)
  also have "\<dots> \<le> of_int (2 ^ nat (k + 1))" using b(2) by (simp only: of_int_le_iff)
  also have "\<dots> = (2::rat) powi (k + 1)" using k by (simp add: power_int_nonneg_exp)
  finally have hi: "x < 2 powi (k + 1)" .
  from lo hi e show ?thesis by simp
next
  case False
  define y where "y = 1 / x"
  have y: "1 < y" using assms False by (simp add: y_def)
  define m where "m = \<lceil>y\<rceil> - 1"
  have m: "0 < m" using y by (simp add: m_def)
  define k where "k = bitlen m"
  have k: "1 \<le> k" using bitlen_pos[OF m] by (simp add: k_def)
  have e: "expo x = - k" using False by (simp add: expo_def m_def k_def y_def)
  from bitlen_bounds[OF m] have b: "2 ^ nat (k - 1) \<le> m" "m < 2 ^ nat k"
    by (simp_all add: k_def)
  have my: "of_int m < y" "y \<le> of_int (m + 1)"
    using ceiling_correct[of y] by (simp_all add: m_def)
  have "(2::rat) powi (k - 1) = of_int (2 ^ nat (k - 1))" using k by (simp add: power_int_nonneg_exp)
  also have "\<dots> \<le> of_int m" using b(1) by (simp only: of_int_le_iff)
  also have "\<dots> < y" by (rule my(1))
  finally have ylo: "2 powi (k - 1) < y" .
  have "y \<le> of_int (m + 1)" by (rule my(2))
  also have "\<dots> \<le> of_int (2 ^ nat k)" using b(2) by (simp only: of_int_le_iff)
  also have "\<dots> = (2::rat) powi k" using k by (simp add: power_int_nonneg_exp)
  finally have yhi: "y \<le> 2 powi k" .
  have xy: "x = 1 / y" using assms by (simp add: y_def)
  have p: "(0::rat) < 2 powi k" "(0::rat) < 2 powi (k - 1)" by simp_all
  have "2 powi (- k) = 1 / ((2::rat) powi k)" by (simp add: power_int_minus_divide)
  also have "\<dots> \<le> 1 / y" using yhi y by (intro divide_left_mono) simp_all
  finally have lo: "2 powi (- k) \<le> x" using xy by simp
  have yp: "0 < y * 2 powi (k - 1)" using y p(2) by (intro mult_pos_pos) simp_all
  have "1 / y < 1 / ((2::rat) powi (k - 1))"
    by (rule divide_strict_left_mono[OF ylo _ yp]) simp
  also have "1 / ((2::rat) powi (k - 1)) = 2 powi (- (k - 1))"
    by (rule power_int_minus_divide[symmetric])
  finally have hi: "x < 2 powi (- k + 1)" using xy by simp
  from lo hi e show ?thesis by simp
qed

lemma expo_unique:
  assumes "2 powi e \<le> x" "x < 2 powi (e + 1)"
  shows "expo x = e"
proof -
  have "(0::rat) < 2 powi e" by simp
  with assms(1) have pos: "0 < x" by linarith
  from expo_bounds[OF pos] have b: "2 powi (expo x) \<le> x" "x < 2 powi (expo x + 1)" by simp_all
  have "\<not> e + 1 \<le> expo x"
  proof
    assume "e + 1 \<le> expo x"
    then have "(2::rat) powi (e + 1) \<le> 2 powi (expo x)" by (intro power_int_increasing) simp_all
    with b(1) assms(2) show False by linarith
  qed
  moreover have "\<not> expo x + 1 \<le> e"
  proof
    assume "expo x + 1 \<le> e"
    then have "(2::rat) powi (expo x + 1) \<le> 2 powi e" by (intro power_int_increasing) simp_all
    with b(2) assms(1) show False by linarith
  qed
  ultimately show ?thesis by linarith
qed

lemma to_double_exponent:
  assumes "2 powi e \<le> \<bar>x\<bar>" "\<bar>x\<bar> < 2 powi (e + 1)" "- 1022 \<le> e"
  shows "to_double x = of_int (py_round (x / 2 powi (e - 52))) * 2 powi (e - 52)"
proof -
  have "(0::rat) < 2 powi e" by simp
  with assms(1) have "0 < \<bar>x\<bar>" by linarith
  then have "x \<noteq> 0" by simp
  moreover have "expo \<bar>x\<bar> = e" using assms(1,2) by (rule expo_unique)
  ultimately show ?thesis using assms(3) by (simp add: to_double_def Let_def max_def)
qed

lemma py_round_of_int: "py_round (of_int k) = k"
  by (simp add: py_round_def)

lemma py_round_near:
  assumes "of_int m - 1 / 2 < y" "y < of_int m + 1 / 2"
  shows "py_round y = m"
proof (cases "of_int m \<le> y")
  case True
  then have "\<lfloor>y\<rfloor> = m" using assms(2) by (intro floor_unique) simp_all
  then show ?thesis using assms(2) by (simp add: py_round_def Let_def)
next
  case False
  then have f: "\<lfloor>y\<rfloor> = m - 1" using assms(1) by (intro floor_unique) simp_all
  have "1 / 2 < y - of_int (m - 1)" using assms(1) by simp
  then show ?thesis using f by (simp add: py_round_def Let_def)
qed

lemma py_round_tie: "py_round (of_int k + 1 / 2) = (if even k then k else k + 1)"
proof -
  have "\<lfloor>of_int k + (1::rat) / 2\<rfloor> = k" by (intro floor_unique) simp_all
  then show ?thesis by (simp add: py_round_def Let_def)
qed

lemma py_round_error: "\<bar>of_int (py_round y) - y\<bar> \<le> 1 / 2"
proof -
  define f where "f = \<lfloor>y\<rfloor>"
  define d where "d = y - of_int f"
  have d: "0 \<le> d" "d < 1" by (simp_all add: d_def f_def) linarith+
  have "py_round y = (if d < 1 / 2 then f else if 1 / 2 < d then f + 1 else if even f then f else f + 1)"
    by (simp add: py_round_def Let_def f_def d_def)
  moreover have "y = of_int f + d" by (simp add: d_def)
  ultimately show ?thesis using d by (auto split: if_splits)
qed

lemma to_double_of_int:
  assumes "\<bar>n\<bar> < 2 ^ 53"
  shows "to_double (of_int n) = of_int n"
proof (cases "n = 0")
  case True
  then show ?thesis by (simp add: to_double_def)
next
  case False
  define e where "e = expo \<bar>of_int n\<bar>"
  have a: "(1::rat) \<le> \<bar>of_int n\<bar>" "\<bar>of_int n :: rat\<bar> < 2 ^ 53"
  proof -
    from False have "1 \<le> \<bar>n\<bar>" by simp
    then have "(of_int 1 :: rat) \<le> of_int \<bar>n\<bar>" by (simp only: of_int_le_iff)
    then show "(1::rat) \<le> \<bar>of_int n\<bar>" by simp
    from assms have "(of_int \<bar>n\<bar> :: rat) < of_int (2 ^ 53)" by (simp only: of_int_less_iff)
    then show "\<bar>of_int n :: rat\<bar> < 2 ^ 53" by simp
  qed
  have pos: "(0::rat) < \<bar>of_int n\<bar>" using a(1) by linarith
  from expo_bounds[OF pos] have b: "2 powi e \<le> \<bar>of_int n :: rat\<bar>"
    "\<bar>of_int n :: rat\<bar> < 2 powi (e + 1)" by (simp_all add: e_def)
  have e0: "0 \<le> e"
  proof (rule ccontr)
    assume "\<not> 0 \<le> e"
    then have "e + 1 \<le> 0" by simp
    then have "(2::rat) powi (e + 1) \<le> 2 powi 0" by (intro power_int_increasing) simp_all
    with b(2) a(1) show False by simp
  qed
  have e52: "e \<le> 52"
  proof (rule ccontr)
    assume "\<not> e \<le> 52"
    then have "53 \<le> e" by simp
    then have "(2::rat) powi 53 \<le> 2 powi e" by (intro power_int_increasing) simp_all
    with b(1) a(2) show False by simp
  qed
  have t: "to_double (of_int n) = of_int (py_round (of_int n / 2 powi (e - 52))) * 2 powi (e - 52)"
    using b e0 by (intro to_double_exponent) simp_all
  have one: "(2::rat) powi (52 - e) * 2 powi (e - 52) = 1"
  proof -
    have "(2::rat) powi (52 - e) * 2 powi (e - 52) = 2 powi ((52 - e) + (e - 52))"
      by (rule power_int_add[symmetric]) simp
    then show ?thesis by simp
  qed
  have inv: "(1::rat) / 2 powi (e - 52) = 2 powi (52 - e)"
  proof -
    have "(2::rat) powi (- (e - 52)) = 1 / 2 powi (e - 52)" by (rule power_int_minus_divide)
    then show ?thesis by simp
  qed
  have "of_int n / (2::rat) powi (e - 52) = of_int n * (1 / 2 powi (e - 52))" by simp
  also have "\<dots> = of_int n * 2 powi (52 - e)" by (simp only: inv)
  also have "\<dots> = of_int n * 2 ^ nat (52 - e)" using e52 by (simp add: power_int_nonneg_exp)
  also have "\<dots> = of_int (n * 2 ^ nat (52 - e))" by simp
  finally have q: "of_int n / (2::rat) powi (e - 52) = of_int (n * 2 ^ nat (52 - e))" .
  have "to_double (of_int n) = of_int (n * 2 ^ nat (52 - e)) * 2 powi (e - 52)"
    unfolding t q py_round_of_int ..
  also have "\<dots> = of_int n * (2 ^ nat (52 - e) * 2 powi (e - 52))" by simp
  also have "(2::rat) ^ nat (52 - e) = 2 powi (52 - e)" using e52 by (simp add: power_int_nonneg_exp)
  also have "of_int n * ((2::rat) powi (52 - e) * 2 powi (e - 52)) = of_int n" by (simp only: one mult_1_right)
  finally show ?thesis .
qed

lemma to_double_error:
  "\<bar>to_double x - x\<bar> \<le> \<bar>x\<bar> / 2 ^ 53 + 2 powi (- 1075)"
proof (cases "x = 0")
  case True
  then show ?thesis by (simp add: to_double_def)
next
  case False
  define e where "e = expo \<bar>x\<bar>"
  define q where "q = max e (- 1022) - 52"
  define p :: rat where "p = 2 powi q"
  define r where "r = py_round (x / p)"
  have pp: "0 < p" by (simp add: p_def)
  have t: "to_double x = of_int r * p"
    using False by (simp add: to_double_def Let_def e_def q_def p_def r_def)
  have "\<bar>of_int r - x / p\<bar> \<le> 1 / 2" unfolding r_def by (rule py_round_error)
  then have "\<bar>of_int r - x / p\<bar> * p \<le> 1 / 2 * p" using pp by (intro mult_right_mono) simp_all
  moreover have "\<bar>of_int r - x / p\<bar> * p = \<bar>of_int r * p - x\<bar>"
  proof -
    have "\<bar>of_int r - x / p\<bar> * p = \<bar>of_int r - x / p\<bar> * \<bar>p\<bar>" using pp by simp
    also have "\<dots> = \<bar>(of_int r - x / p) * p\<bar>" by (simp only: abs_mult)
    also have "(of_int r - x / p) * p = of_int r * p - x" using pp by (simp add: field_simps)
    finally show ?thesis .
  qed
  ultimately have err: "\<bar>to_double x - x\<bar> \<le> p / 2" by (simp add: t)
  have pos: "0 < \<bar>x\<bar>" using False by simp
  from expo_bounds[OF pos] have lo: "2 powi e \<le> \<bar>x\<bar>" by (simp add: e_def)
  have h: "p / 2 = 2 powi (q - 1)"
  proof -
    have "(2::rat) powi (q + (- 1)) = 2 powi q * 2 powi (- 1)" by (rule power_int_add) simp
    then show ?thesis by (simp add: p_def)
  qed
  show ?thesis
  proof (cases "- 1022 \<le> e")
    case True
    then have qe: "q - 1 = e + (- 53)" by (simp add: q_def)
    have "(2::rat) powi (e + (- 53)) = 2 powi e * 2 powi (- 53)"
      by (rule power_int_add) simp
    then have "(2::rat) powi (q - 1) = 2 powi e * 2 powi (- 53)" by (simp only: qe)
    also have "\<dots> = 2 powi e / 2 ^ 53" by (simp add: power_int_minus_divide)
    also have "\<dots> \<le> \<bar>x\<bar> / 2 ^ 53" using lo by (intro divide_right_mono) simp_all
    finally have "p / 2 \<le> \<bar>x\<bar> / 2 ^ 53" by (simp only: h)
    moreover have "(0::rat) \<le> 2 powi (- 1075)" by simp
    ultimately show ?thesis using err by linarith
  next
    case False
    then have "q - 1 = - 1075" by (simp add: q_def)
    then have "p / 2 = 2 powi (- 1075)" by (simp only: h)
    moreover have "0 \<le> \<bar>x\<bar> / 2 ^ 53" by simp
    ultimately show ?thesis using err by linarith
  qed
qed

lemma to_double_near:
  assumes "2 powi e \<le> \<bar>x\<bar>" "\<bar>x\<bar> < 2 powi (e + 1)" "- 1022 \<le> e"
    and "of_int m - 1 / 2 < x / 2 powi (e - 52)" "x / 2 powi (e - 52) < of_int m + 1 / 2"
  shows "to_double x = of_int m * 2 powi (e - 52)"
  using to_double_exponent[OF assms(1-3)] py_round_near[OF assms(4,5)] by simp

lemma to_double_numeral: "numeral n < (2::int) ^ 53 \<Longrightarrow> to_double (numeral n) = numeral n"
  using to_double_of_int[of "numeral n"] by simp

lemma to_double_neg_numeral:
  "numeral n < (2::int) ^ 53 \<Longrightarrow> to_double (- numeral n) = - numeral n"
  using to_double_of_int[of "- numeral n"] by simp

lemma to_double_zero: "to_double 0 = 0"
  by (simp add: to_double_def)

lemma py_int_nonneg: "0 \<le> x \<Longrightarrow> of_int z \<le> x \<Longrightarrow> x < of_int z + 1 \<Longrightarrow> py_int x = z"
  by (simp add: py_int_def floor_unique)

lemma to_double_tie:
  assumes "2 powi e \<le> \<bar>x\<bar>" "\<bar>x\<bar> < 2 powi (e + 1)" "- 1022 \<le> e"
    and "x / 2 powi (e - 52) = of_int k + 1 / 2"
  shows "to_double x = of_int (if even k then k else k + 1) * 2 powi (e - 52)"
  using to_double_exponent[OF assms(1-3)] py_round_tie[of k] assms(4) by simp

section \<open>Properties of the codec\<close>

lemma uint_le_bytes:
  assumes "0 \<le> v" "v \<le> 65535"
  shows "uint (word_of_int v :: byte) + 256 * uint (word_of_int (drop_bit 8 v) :: byte) = v"
proof -
  have "uint (word_of_int v :: byte) = v mod 256" by (simp add: uint_word_of_int)
  moreover have "uint (word_of_int (drop_bit 8 v) :: byte) = v div 256 mod 256"
    by (simp add: uint_word_of_int drop_bit_eq_div)
  moreover have "v mod (256 * 256) = 256 * (v div 256 mod 256) + v mod 256"
    by (rule zmod_zmult2_eq) simp
  moreover have "v mod (256 * 256) = v"
    using assms by (simp add: mod_pos_pos_trivial)
  ultimately show ?thesis by simp
qed

lemma parse_packet_frame:
  assumes hdr: "hdr = [0x55, 0x66, c, l0, l1, s0, s1, k]"
    and raw: "raw = hdr @ data @ [c0, c1]"
    and crc: "uint c0 + 256 * uint c1 = crc16_xmodem (hdr @ data) 0"
  shows "parse_packet raw =
           Inr (Some (uint c, uint s0 + 256 * uint s1, uint k,
                      take (nat (uint l0 + 256 * uint l1)) (data @ [c0, c1])))"
proof -
  have len: "length raw = length data + 10" by (simp add: raw hdr)
  have l8: "length hdr = 8" by (simp add: hdr)
  have t2: "take 2 raw = STX" by (simp add: raw hdr STX_def)
  have dr: "drop (length raw - 2) raw = [c0, c1]" using l8 by (simp add: len) (simp add: raw)
  have tk: "take (length raw - 2) raw = hdr @ data" using l8 by (simp add: len) (simp add: raw)
  have b2: "byte_at raw 2 = Inr (uint c)" by (simp add: byte_at_def len) (simp add: raw hdr)
  have b7: "byte_at raw 7 = Inr (uint k)" by (simp add: byte_at_def len) (simp add: raw hdr)
  have d3: "take 2 (drop 3 raw) = [l0, l1]" by (simp add: raw hdr)
  have d5: "take 2 (drop 5 raw) = [s0, s1]" by (simp add: raw hdr)
  have d8: "drop 8 raw = data @ [c0, c1]" by (simp add: raw hdr)
  show ?thesis
    unfolding parse_packet_def t2 dr tk b2 b7 d3 d5 d8
    using crc by (simp add: unpack_H_def len)
qed

lemma uint_byte_id: "0 \<le> v \<Longrightarrow> v \<le> 255 \<Longrightarrow> uint (word_of_int v :: byte) = v"
  by (simp add: uint_word_of_int mod_pos_pos_trivial)

lemma build_packet_frame:
  assumes "0 \<le> cmd_id" "cmd_id \<le> 255" "length data \<le> 65535" "0 \<le> seq" "seq \<le> 65535"
    and hdr_def: "hdr = [0x55, 0x66, word_of_int (if need_ack then 1 else 0),
                   word_of_int (int (length data)), word_of_int (drop_bit 8 (int (length data))),
                   word_of_int seq, word_of_int (drop_bit 8 seq), word_of_int cmd_id]"
    and crc_def: "crc = crc16_xmodem (hdr @ data) 0"
  shows "build_packet cmd_id data seq need_ack =
           Inr (hdr @ data @ [word_of_int crc, word_of_int (drop_bit 8 crc)])"
proof -
  have pk: "pack_BHHB (if need_ack then 1 else 0) (int (length data)) seq cmd_id = Inr (drop 2 hdr)"
    using assms(1-5) by (simp add: pack_BHHB_def pack_B_def pack_H_def hdr_def)
  have st: "STX @ drop 2 hdr = hdr" by (simp add: STX_def hdr_def)
  have pc: "pack_H crc = Inr [word_of_int crc, word_of_int (drop_bit 8 crc)]"
    using crc16_range[of "hdr @ data" 0] by (simp add: pack_H_def crc_def)
  show ?thesis
    unfolding build_packet_def Let_def pk
    using pc by (simp add: st crc_def del: append.simps)
qed


lemma flipped_byte_neq: "k < 8 \<Longrightarrow> (b::byte) XOR push_bit k 1 \<noteq> b"
proof
  assume k: "k < 8" and e: "b XOR push_bit k 1 = b"
  from e have "b XOR (b XOR push_bit k 1) = b XOR b" by simp
  then have "push_bit k (1::byte) = 0" by (simp flip: xor.assoc)
  then have "(2::byte) ^ k = 0" by (simp add: push_bit_eq_mult)
  with k show False by (simp add: exp_eq_zero_iff)
qed

lemma parse_packet_SomeD:
  assumes "parse_packet raw = Inr (Some f)"
  shows "10 \<le> length raw" "take 2 raw = STX"
    "unpack_H (drop (length raw - 2) raw) = Inr (crc16_xmodem (take (length raw - 2) raw) 0)"
  using assms by (auto simp add: parse_packet_def Let_def split: if_splits sum.splits)

lemma parse_packet_crc_mismatch:
  assumes "unpack_H (drop (length raw - 2) raw) = Inr c"
    and "c \<noteq> crc16_xmodem (take (length raw - 2) raw) 0"
  shows "parse_packet raw = Inr None"
  using assms by (simp add: parse_packet_def)


lemma take2_drop: "j + 2 \<le> length xs \<Longrightarrow> take 2 (drop j xs) = [xs ! j, xs ! Suc j]"
proof -
  assume a: "j + 2 \<le> length xs"
  then have "2 \<le> length (drop j xs)" by simp
  then obtain x y r where d: "drop j xs = x # y # r"
    by (cases "drop j xs"; cases "tl (drop j xs)") auto
  have "x = drop j xs ! 0" "y = drop j xs ! 1" by (simp_all add: d)
  with a have "x = xs ! j" "y = xs ! Suc j" by simp_all
  with d show ?thesis by simp
qed

lemma parse_packet_eq:
  assumes "10 \<le> length raw" "take 2 raw = STX"
  shows "parse_packet raw =
     (if uint (raw ! (length raw - 2)) + 256 * uint (raw ! (length raw - 1))
           \<noteq> crc16_xmodem (take (length raw - 2) raw) 0
      then Inr None
      else Inr (Some (uint (raw ! 2), uint (raw ! 5) + 256 * uint (raw ! 6), uint (raw ! 7),
                 take (nat (uint (raw ! 3) + 256 * uint (raw ! 4))) (drop 8 raw))))"
proof -
  have "drop (length raw - 2) raw = take 2 (drop (length raw - 2) raw)" by simp
  also have "\<dots> = [raw ! (length raw - 2), raw ! Suc (length raw - 2)]"
    using assms(1) by (intro take2_drop) simp
  also have "Suc (length raw - 2) = length raw - 1" using assms(1) by simp
  finally have dr: "drop (length raw - 2) raw = [raw ! (length raw - 2), raw ! (length raw - 1)]" .
  have d3: "take 2 (drop 3 raw) = [raw ! 3, raw ! 4]"
    using take2_drop[of 3 raw] assms(1) by (simp add: eval_nat_numeral)
  have d5: "take 2 (drop 5 raw) = [raw ! 5, raw ! 6]"
    using take2_drop[of 5 raw] assms(1) by (simp add: eval_nat_numeral)
  show ?thesis
    unfolding parse_packet_def dr d3 d5 using assms by (simp add: unpack_H_def byte_at_def)
qed

lemma build_then_parse:
  assumes "0 \<le> cmd_id" "cmd_id \<le> 255" "length data \<le> 65535" "0 \<le> seq" "seq \<le> 65535"
  shows "\<exists>pkt. build_packet cmd_id data seq need_ack = Inr pkt \<and>
               parse_packet pkt = Inr (Some ((if need_ack then 1 else 0), seq, cmd_id, data))"
proof -
  define hdr where "hdr = [0x55, 0x66, word_of_int (if need_ack then 1 else 0),
                   word_of_int (int (length data)), word_of_int (drop_bit 8 (int (length data))),
                   word_of_int seq, word_of_int (drop_bit 8 seq), word_of_int cmd_id :: byte]"
  define crc where "crc = crc16_xmodem (hdr @ data) 0"
  define pkt where "pkt = hdr @ data @ [word_of_int crc, word_of_int (drop_bit 8 crc) :: byte]"
  have b: "build_packet cmd_id data seq need_ack = Inr pkt"
    using build_packet_frame[OF assms hdr_def crc_def] by (simp add: pkt_def)
  have c: "uint (word_of_int crc :: byte) + 256 * uint (word_of_int (drop_bit 8 crc) :: byte)
             = crc16_xmodem (hdr @ data) 0"
    using crc16_range[of "hdr @ data" 0] uint_le_bytes[of crc] by (simp add: crc_def)
  have p: "parse_packet pkt =
        Inr (Some (uint (word_of_int (if need_ack then 1 else 0) :: byte),
                   uint (word_of_int seq :: byte) + 256 * uint (word_of_int (drop_bit 8 seq) :: byte),
                   uint (word_of_int cmd_id :: byte),
                   take (nat (uint (word_of_int (int (length data)) :: byte)
                              + 256 * uint (word_of_int (drop_bit 8 (int (length data))) :: byte)))
                     (data @ [word_of_int crc, word_of_int (drop_bit 8 crc)])))"
    by (rule parse_packet_frame[OF hdr_def pkt_def c])
  have "parse_packet pkt = Inr (Some ((if need_ack then 1 else 0), seq, cmd_id, data))"
    unfolding p using assms uint_le_bytes[of seq] uint_le_bytes[of "int (length data)"]
      uint_byte_id[of cmd_id]
    by (simp add: uint_byte_id)
  with b show ?thesis by blast
qed

section \<open>Properties of the command channel\<close>

lemma py_round_bounds:
  assumes "of_int a \<le> x" "x \<le> of_int b"
  shows "a \<le> py_round x \<and> py_round x \<le> b"
proof -
  define f where "f = \<lfloor>x\<rfloor>"
  define d where "d = x - of_int f"
  have af: "a \<le> f" using assms(1) by (simp add: f_def le_floor_iff)
  have fb: "f \<le> b" using assms(2) by (simp add: f_def floor_le_iff)
  have up: "f + 1 \<le> b" if "1 / 2 \<le> d"
  proof -
    from that have "of_int f < x" by (simp add: d_def)
    with assms(2) have "(of_int f :: rat) < of_int b" by linarith
    then show ?thesis by simp
  qed
  have "py_round x = f \<or> (py_round x = f + 1 \<and> 1 / 2 \<le> d)"
    by (auto simp add: py_round_def Let_def f_def d_def)
  with af fb up show ?thesis by auto
qed

lemma uint_le_bytes_mod:
  "uint (word_of_int v :: byte) + 256 * uint (word_of_int (drop_bit 8 v) :: byte) = v mod 65536"
proof -
  have "uint (word_of_int v :: byte) = v mod 256" by (simp add: uint_word_of_int)
  moreover have "uint (word_of_int (drop_bit 8 v) :: byte) = v div 256 mod 256"
    by (simp add: uint_word_of_int drop_bit_eq_div)
  moreover have "v mod (256 * 256) = 256 * (v div 256 mod 256) + v mod 256"
    by (rule zmod_zmult2_eq) simp
  ultimately show ?thesis by simp
qed

lemma le_i16_pack:
  assumes "- 32768 \<le> v" "v \<le> 32767"
  shows "le_i16 (word_of_int v) (word_of_int (drop_bit 8 v)) = v"
proof (cases "0 \<le> v")
  case True
  then have "v mod 65536 = v" using assms by (simp add: mod_pos_pos_trivial)
  with assms show ?thesis by (simp add: le_i16_def uint_le_bytes_mod)
next
  case False
  have "(v + 65536) mod 65536 = v mod 65536" by simp
  moreover have "(v + 65536) mod 65536 = v + 65536"
    by (rule mod_pos_pos_trivial) (use assms False in simp_all)
  ultimately have "v mod 65536 = v + 65536" by simp
  with assms False show ?thesis by (simp add: le_i16_def uint_le_bytes_mod)
qed

lemma pack_hh_shorts:
  assumes "- 32768 \<le> a" "a \<le> 32767" "- 32768 \<le> b" "b \<le> 32767"
  shows "\<exists>data. pack_hh a b = Inr data \<and> length data = 4 \<and> shorts data = [a, b]"
  using assms le_i16_pack[of a] le_i16_pack[of b] by (simp add: pack_hh_def pack_h_def)

lemma parse_packet_Inr: "\<exists>r. parse_packet raw = Inr r"
proof (cases "length raw < 10 \<or> take 2 raw \<noteq> STX")
  case True
  then show ?thesis by (auto simp add: parse_packet_def)
next
  case False
  then have "10 \<le> length raw" "take 2 raw = STX" by auto
  from parse_packet_eq[OF this] show ?thesis by auto
qed

lemma shorts_take: "shorts (take (2 * n) bs) = take n (shorts bs)"
proof (induction bs arbitrary: n rule: shorts.induct)
  case (1 lo hi rest)
  show ?case
  proof (cases n)
    case 0
    then show ?thesis by simp
  next
    case (Suc m)
    with 1[of m] show ?thesis by simp
  qed
qed (simp_all add: take_Cons')

lemma tenths3_take:
  assumes "6 \<le> 2 * n" "2 * n \<le> length data"
  shows "(of_int (shorts (take (2 * n) data) ! 0) / 10, of_int (shorts (take (2 * n) data) ! 1) / 10,
          of_int (shorts (take (2 * n) data) ! 2) / 10) = tenths3 data"
  using assms by (simp add: shorts_take tenths3_def)

lemma unpack_hs_take:
  "2 * n \<le> length data \<Longrightarrow> unpack_hs n (take (2 * n) data) = Inr (shorts (take (2 * n) data))"
  by (simp add: unpack_hs_def)

lemma request_attitude_poll_outcome: "request_attitude_poll env = Inr (attitude_outcome env)"
proof (induction env)
  case WindowElapsed
  show ?case by (simp add: attitude_outcome_def)
next
  case SocketTimeout
  show ?case by (simp add: attitude_outcome_def)
next
  case (Datagram raw rest)
  obtain r where r: "parse_packet raw = Inr r" using parse_packet_Inr by blast
  show ?case
  proof (cases r)
    case None
    with r Datagram show ?thesis by (simp add: attitude_outcome_def attitude_reply_def)
  next
    case (Some t)
    obtain ctrl rseq cmd_id data where t: "t = (ctrl, rseq, cmd_id, data)" by (cases t) auto
    show ?thesis
    proof (cases "cmd_id = 0x0D \<and> 12 \<le> length data")
      case True
      then have u: "unpack_hs 6 (take 12 data) = Inr (shorts (take 12 data))"
        using unpack_hs_take[of 6 data] by simp
      have v: "(of_int (shorts (take 12 data) ! 0) / 10, of_int (shorts (take 12 data) ! 1) / 10,
          of_int (shorts (take 12 data) ! 2) / 10) = tenths3 data"
        using tenths3_take[of 6 data] True by simp
      from True r Some t u v show ?thesis
        by (simp add: attitude_outcome_def attitude_reply_def frame_payload_def)
    next
      case False
      with r Some t Datagram show ?thesis
        by (auto simp add: attitude_outcome_def attitude_reply_def)
    qed
  qed
qed

lemma set_angles_poll_outcome: "set_angles_poll env = Inr (angles_outcome env)"
proof (induction env)
  case WindowElapsed
  show ?case by (simp add: angles_outcome_def)
next
  case SocketTimeout
  show ?case by (simp add: angles_outcome_def)
next
  case (Datagram raw rest)
  obtain r where r: "parse_packet raw = Inr r" using parse_packet_Inr by blast
  show ?case
  proof (cases r)
    case None
    with r Datagram show ?thesis by (simp add: angles_outcome_def angles_ack_def)
  next
    case (Some t)
    obtain ctrl rseq cmd_id data where t: "t = (ctrl, rseq, cmd_id, data)" by (cases t) auto
    show ?thesis
    proof (cases "cmd_id = 0x0E \<and> ctrl AND 0x02 \<noteq> 0 \<and> 6 \<le> length data")
      case True
      then have u: "unpack_hs 3 (take 6 data) = Inr (shorts (take 6 data))"
        using unpack_hs_take[of 3 data] by simp
      have v: "(of_int (shorts (take 6 data) ! 0) / 10, of_int (shorts (take 6 data) ! 1) / 10,
          of_int (shorts (take 6 data) ! 2) / 10) = tenths3 data"
        using tenths3_take[of 3 data] True by simp
      from True r Some t u v show ?thesis
        by (simp add: angles_outcome_def angles_ack_def frame_payload_def)
    next
      case False
      with r Some t Datagram show ?thesis
        by (auto simp add: angles_outcome_def angles_ack_def)
    qed
  qed
qed

lemma clamp_range: "a \<le> b \<Longrightarrow> a \<le> clamp v a b \<and> clamp v a b \<le> b"
  by (simp add: clamp_def)

lemma py_round_even_tie: "\<bar>of_int (py_round x) - x\<bar> = 1 / 2 \<Longrightarrow> even (py_round x)"
proof -
  define f where "f = \<lfloor>x\<rfloor>"
  define d where "d = x - of_int f"
  have d: "0 \<le> d" "d < 1" using floor_correct[of x] by (simp_all add: d_def f_def)
  have x: "x = of_int f + d" by (simp add: d_def)
  assume a: "\<bar>of_int (py_round x) - x\<bar> = 1 / 2"
  consider "d < 1 / 2" | "1 / 2 < d" | "d = 1 / 2" by linarith
  then show ?thesis
  proof cases
    case 1
    then have "py_round x = f" by (simp add: py_round_def Let_def f_def d_def)
    with a x d 1 show ?thesis by simp
  next
    case 2
    then have "py_round x = f + 1" by (simp add: py_round_def Let_def f_def d_def)
    with a x d 2 show ?thesis by simp
  next
    case 3
    then have "py_round x = (if even f then f else f + 1)"
      by (simp add: py_round_def Let_def f_def d_def)
    then show ?thesis by simp
  qed
qed

lemma py_round_to_double_bounds:
  assumes "of_int a \<le> x" "x \<le> of_int b" "- 2000 \<le> a" "b \<le> 2000"
  shows "a \<le> py_round (to_double x) \<and> py_round (to_double x) \<le> b"
proof -
  have "(of_int a :: rat) \<ge> - 2000" "(of_int b :: rat) \<le> 2000"
    using assms(3,4) by (simp_all add: of_int_le_iff[symmetric] del: of_int_le_iff)
  with assms(1,2) have ax: "\<bar>x\<bar> \<le> 2000" by linarith
  have e: "\<bar>to_double x - x\<bar> \<le> \<bar>x\<bar> / 2 ^ 53 + 2 powi (- 1075)" by (rule to_double_error)
  have "(2::rat) powi (- 1075) \<le> 2 powi (- 2)" by (intro power_int_increasing) simp_all
  also have "(2::rat) powi (- 2) = 1 / 4" by (simp add: power_int_minus_divide)
  finally have p: "(2::rat) powi (- 1075) \<le> 1 / 4" .
  have "\<bar>x\<bar> / 2 ^ 53 \<le> 2000 / 2 ^ 53" using ax by (simp add: divide_right_mono)
  also have "(2000::rat) / 2 ^ 53 < 1 / 4" by simp
  finally have q: "\<bar>x\<bar> / 2 ^ 53 < 1 / 4" .
  from e p q have n: "\<bar>to_double x - x\<bar> < 1 / 2" by linarith
  have r: "\<bar>of_int (py_round (to_double x)) - to_double x\<bar> \<le> 1 / 2" by (rule py_round_error)
  from n r assms(1,2) have "(of_int a :: rat) - 1 < of_int (py_round (to_double x))"
    "(of_int (py_round (to_double x)) :: rat) < of_int b + 1" by linarith+
  then have "(of_int (a - 1) :: rat) < of_int (py_round (to_double x))"
    "(of_int (py_round (to_double x)) :: rat) < of_int (b + 1)" by simp_all
  then have "a - 1 < py_round (to_double x)" "py_round (to_double x) < b + 1"
    by (simp_all only: of_int_less_iff)
  then show ?thesis by simp
qed

lemma clamp_cases: "a \<le> b \<Longrightarrow> clamp v a b = (if v < a then a else if b < v then b else v)"
  by (simp add: clamp_def max_def min_def)

lemma clamp_yaw:
  "clamp v YAW_MIN YAW_MAX = (if v < - 135 then - 135 else if 135 < v then 135 else v)"
  using clamp_cases[of YAW_MIN YAW_MAX v] by (simp add: YAW_MIN_def YAW_MAX_def)

lemma clamp_pitch:
  "clamp v PITCH_MIN PITCH_MAX = (if v < - 90 then - 90 else if 45 < v then 45 else v)"
  using clamp_cases[of PITCH_MIN PITCH_MAX v] by (simp add: PITCH_MIN_def PITCH_MAX_def)

lemma set_angles_payload:
  "\<exists>data. pack_hh (py_round (to_double (clamp y YAW_MIN YAW_MAX * 10)))
                  (py_round (to_double (clamp p PITCH_MIN PITCH_MAX * 10)))
            = Inr data \<and> length data = 4 \<and>
          shorts data = [py_round (to_double (clamp y YAW_MIN YAW_MAX * 10)),
                         py_round (to_double (clamp p PITCH_MIN PITCH_MAX * 10))] \<and>
          - 1350 \<le> py_round (to_double (clamp y YAW_MIN YAW_MAX * 10)) \<and>
          py_round (to_double (clamp y YAW_MIN YAW_MAX * 10)) \<le> 1350 \<and>
          - 900 \<le> py_round (to_double (clamp p PITCH_MIN PITCH_MAX * 10)) \<and>
          py_round (to_double (clamp p PITCH_MIN PITCH_MAX * 10)) \<le> 450"
proof -
  have "- 135 \<le> clamp y YAW_MIN YAW_MAX \<and> clamp y YAW_MIN YAW_MAX \<le> 135"
    using clamp_range[of YAW_MIN YAW_MAX y] by (simp add: YAW_MIN_def YAW_MAX_def)
  then have y: "- 1350 \<le> py_round (to_double (clamp y YAW_MIN YAW_MAX * 10)) \<and>
                py_round (to_double (clamp y YAW_MIN YAW_MAX * 10)) \<le> 1350"
    using py_round_to_double_bounds[of "- 1350" "clamp y YAW_MIN YAW_MAX * 10" 1350] by simp
  have "- 90 \<le> clamp p PITCH_MIN PITCH_MAX \<and> clamp p PITCH_MIN PITCH_MAX \<le> 45"
    using clamp_range[of PITCH_MIN PITCH_MAX p] by (simp add: PITCH_MIN_def PITCH_MAX_def)
  then have p: "- 900 \<le> py_round (to_double (clamp p PITCH_MIN PITCH_MAX * 10)) \<and>
                py_round (to_double (clamp p PITCH_MIN PITCH_MAX * 10)) \<le> 450"
    using py_round_to_double_bounds[of "- 900" "clamp p PITCH_MIN PITCH_MAX * 10" 450] by simp
  have "\<exists>data. pack_hh (py_round (to_double (clamp y YAW_MIN YAW_MAX * 10)))
                  (py_round (to_double (clamp p PITCH_MIN PITCH_MAX * 10)))
            = Inr data \<and> length data = 4 \<and>
          shorts data = [py_round (to_double (clamp y YAW_MIN YAW_MAX * 10)),
                         py_round (to_double (clamp p PITCH_MIN PITCH_MAX * 10))]"
    by (rule pack_hh_shorts) (use y p in simp_all)
  with y p show ?thesis by blast
qed

lemma set_angles_sent:
  assumes "0 \<le> seq" "seq \<le> 65535"
  shows "\<exists>pkt payload.
     set_angles_with_ack s env seq yaw_deg pitch_deg
       = Inr ((fst (angles_outcome env), snd (angles_outcome env),
               (clamp yaw_deg YAW_MIN YAW_MAX, clamp pitch_deg PITCH_MIN PITCH_MAX)),
              s\<lparr>sent := sent s @ [pkt]\<rparr>) \<and>
     build_packet 0x0E payload seq True = Inr pkt \<and>
     parse_packet pkt = Inr (Some (1, seq, 0x0E, payload)) \<and> length payload = 4 \<and>
     shorts payload = [py_round (to_double (clamp yaw_deg YAW_MIN YAW_MAX * 10)),
                       py_round (to_double (clamp pitch_deg PITCH_MIN PITCH_MAX * 10))]"
proof -
  obtain payload where d: "pack_hh (py_round (to_double (clamp yaw_deg YAW_MIN YAW_MAX * 10)))
        (py_round (to_double (clamp pitch_deg PITCH_MIN PITCH_MAX * 10))) = Inr payload"
    and l: "length payload = 4"
    and sh: "shorts payload = [py_round (to_double (clamp yaw_deg YAW_MIN YAW_MAX * 10)),
                       py_round (to_double (clamp pitch_deg PITCH_MIN PITCH_MAX * 10))]"
    using set_angles_payload[of yaw_deg pitch_deg] by blast
  obtain pkt where b: "build_packet 0x0E payload seq True = Inr pkt"
    and p: "parse_packet pkt = Inr (Some (1, seq, 0x0E, payload))"
    using build_then_parse[of "0x0E" payload seq True] assms l by auto
  have "set_angles_with_ack s env seq yaw_deg pitch_deg
       = Inr ((fst (angles_outcome env), snd (angles_outcome env),
               (clamp yaw_deg YAW_MIN YAW_MAX, clamp pitch_deg PITCH_MIN PITCH_MAX)),
              s\<lparr>sent := sent s @ [pkt]\<rparr>)"
    by (simp add: set_angles_with_ack_def Let_def d b set_angles_poll_outcome sendto_def
          split: prod.split)
  with b p l sh show ?thesis by blast
qed

lemma set_angles_example:
  "set_angles_with_ack \<lparr>sent = []\<rparr> WindowElapsed 1 200 (- 999)
     = Inr ((False, None, (135, - 90)),
            \<lparr>sent = [[85, 102, 1, 4, 0, 1, 0, 14, 70, 5, 124, 252, 219, 190]]\<rparr>)"
proof -
  have c: "crc16_xmodem [85, 102, 1, 4, 0, 1, 0, 14, 70, 5, 124, 252] 0 = 48859"
    by (simp add: crc16_xmodem_def crc_byte_def crc_shift_def funpow8)
  have b: "build_packet 0x0E [70, 5, 124, 252] 1 True
             = Inr [85, 102, 1, 4, 0, 1, 0, 14, 70, 5, 124, 252, 219, 190]"
    using build_packet_frame[of 14 "[70, 5, 124, 252]" 1 "[85, 102, 1, 4, 0, 1, 0, 14]" True 48859]
    by (simp add: c)
  have y: "clamp 200 YAW_MIN YAW_MAX = 135" "clamp (- 999) PITCH_MIN PITCH_MAX = - 90"
    by (simp_all add: clamp_def YAW_MIN_def YAW_MAX_def PITCH_MIN_def PITCH_MAX_def)
  have r: "py_round (to_double (135 * 10)) = 1350" "py_round (to_double (- 90 * 10)) = - 900"
    using py_round_of_int[of 1350] py_round_of_int[of "- 900"]
    by (simp_all add: to_double_numeral to_double_neg_numeral)
  have d: "pack_hh 1350 (- 900) = Inr [70, 5, 124, 252]"
    by (simp add: pack_hh_def pack_h_def)
  show ?thesis
    unfolding set_angles_with_ack_def Let_def y r d
    by (simp add: b sendto_def)
qed

lemma set_angles_example_in_range:
  "set_angles_with_ack \<lparr>sent = []\<rparr> WindowElapsed 1 10 (- 5)
     = Inr ((False, None, (10, - 5)),
            \<lparr>sent = [[85, 102, 1, 4, 0, 1, 0, 14, 100, 0, 206, 255, 1, 199]]\<rparr>)"
proof -
  have c: "crc16_xmodem [85, 102, 1, 4, 0, 1, 0, 14, 100, 0, 206, 255] 0 = 50945"
    by (simp add: crc16_xmodem_def crc_byte_def crc_shift_def funpow8)
  have b: "build_packet 0x0E [100, 0, 206, 255] 1 True
             = Inr [85, 102, 1, 4, 0, 1, 0, 14, 100, 0, 206, 255, 1, 199]"
    using build_packet_frame[of 14 "[100, 0, 206, 255]" 1 "[85, 102, 1, 4, 0, 1, 0, 14]" True 50945]
    by (simp add: c)
  have y: "clamp 10 YAW_MIN YAW_MAX = 10" "clamp (- 5) PITCH_MIN PITCH_MAX = - 5"
    by (simp_all add: clamp_def YAW_MIN_def YAW_MAX_def PITCH_MIN_def PITCH_MAX_def)
  have r: "py_round (to_double (10 * 10)) = 100" "py_round (to_double (- 5 * 10)) = - 50"
    using py_round_of_int[of 100] py_round_of_int[of "- 50"]
    by (simp_all add: to_double_numeral to_double_neg_numeral)
  have d: "pack_hh 100 (- 50) = Inr [100, 0, 206, 255]"
    by (simp add: pack_hh_def pack_h_def)
  show ?thesis
    unfolding set_angles_with_ack_def Let_def y r d
    by (simp add: b sendto_def)
qed

lemma half_degree_tie:
  "to_double (- 2374065506693939 / 17592186044416 * 10) = - 2699 / 2 \<and>
   py_round (- 2699 / 2) = - 1350 \<and>
   py_round (- 2374065506693939 / 17592186044416 * 10) = - 1349"
proof -
  have a: "to_double (- 2374065506693939 / 17592186044416 * 10) = - 2699 / 2"
    using to_double_tie[of 10 "- 2374065506693939 / 17592186044416 * 10" "- 5935163766734848"]
    by simp
  have b: "py_round (- 2699 / 2) = - 1350"
    using py_round_tie[of "- 1350"] by simp
  have c: "py_round (- 2374065506693939 / 17592186044416 * 10) = - 1349"
    using py_round_near[of "- 1349" "- 2374065506693939 / 17592186044416 * 10"] by simp
  from a b c show ?thesis by blast
qed

lemma request_attitude_sent:
  assumes "0 \<le> seq" "seq \<le> 65535"
  shows "\<exists>pkt. build_packet 0x0D [] seq True = Inr pkt \<and>
           request_attitude s env seq = Inr (attitude_outcome env, s\<lparr>sent := sent s @ [pkt]\<rparr>)"
proof -
  obtain pkt where b: "build_packet 0x0D [] seq True = Inr pkt"
    using build_then_parse[of "0x0D" "[]" seq True] assms by auto
  then show ?thesis
    by (simp add: request_attitude_def request_attitude_poll_outcome sendto_def)
qed


lemma ack_frame_parse:
  "parse_packet [85, 102, 2, 6, 0, 0, 0, 14, 100, 0, 206, 255, 0, 0, 237, 209]
     = Inr (Some (2, 0, 14, [100, 0, 206, 255, 0, 0]))"
proof -
  have c: "crc16_xmodem [85, 102, 2, 6, 0, 0, 0, 14, 100, 0, 206, 255, 0, 0] 0 = 53741"
    by (simp add: crc16_xmodem_def crc_byte_def crc_shift_def funpow8)
  show ?thesis
    using parse_packet_eq[of "[85, 102, 2, 6, 0, 0, 0, 14, 100, 0, 206, 255, 0, 0, 237, 209]"]
    by (simp add: STX_def c)
qed

lemma stream_frame_parse:
  "parse_packet [85, 102, 0, 12, 0, 0, 0, 13, 100, 0, 206, 255, 0, 0, 0, 0, 0, 0, 0, 0, 80, 98]
     = Inr (Some (0, 0, 13, [100, 0, 206, 255, 0, 0, 0, 0, 0, 0, 0, 0]))"
proof -
  have c: "crc16_xmodem [85, 102, 0, 12, 0, 0, 0, 13, 100, 0, 206, 255, 0, 0, 0, 0, 0, 0, 0, 0] 0 = 25168"
    by (simp add: crc16_xmodem_def crc_byte_def crc_shift_def funpow8)
  show ?thesis
    using parse_packet_eq[of "[85, 102, 0, 12, 0, 0, 0, 13, 100, 0, 206, 255, 0, 0, 0, 0, 0, 0, 0, 0, 80, 98]"]
    by (simp add: STX_def c)
qed

lemma short_parse: "parse_packet [1, 2, 3] = Inr None"
  by (simp add: parse_packet_def)

lemma request_packet_5: "build_packet 0x0D [] 5 True = Inr [85, 102, 1, 0, 0, 5, 0, 13, 24, 238]"
proof -
  have c: "crc16_xmodem [85, 102, 1, 0, 0, 5, 0, 13] 0 = 60952"
    by (simp add: crc16_xmodem_def crc_byte_def crc_shift_def funpow8)
  show ?thesis
    using build_packet_frame[of 13 "[]" 5 "[85, 102, 1, 0, 0, 5, 0, 13]" True 60952]
    by (simp add: c)
qed

section \<open>Properties of the joystick update\<close>

lemma apply_wide_zoom_frame:
  "active_target_id (apply_wide_zoom u s) = active_target_id s"
  "zoom_min (apply_wide_zoom u s) = zoom_min s"
  "zoom_max (apply_wide_zoom u s) = zoom_max s"
  "zoom_step (apply_wide_zoom u s) = zoom_step s"
  by (simp_all add: apply_wide_zoom_def Let_def)

lemma apply_wide_zoom_idle:
  "\<not> wide u \<Longrightarrow> zoom_delta u = 0 \<Longrightarrow> apply_wide_zoom u s = s"
  by (simp add: apply_wide_zoom_def)

lemma length_ids_from: "length (ids_from k ts) = length ts"
  by (induction ts arbitrary: k) simp_all

lemma ids_from_nth: "i < length ts \<Longrightarrow> ids_from k ts ! i = identity (k + i) (ts ! i)"
proof (induction ts arbitrary: k i)
  case Nil
  then show ?case by simp
next
  case (Cons t ts)
  show ?case
  proof (cases i)
    case 0
    then show ?thesis by simp
  next
    case (Suc j)
    with Cons.prems have "j < length ts" by simp
    from Cons.IH[OF this, of "Suc k"] Suc show ?thesis by simp
  qed
qed

lemma py_index_first:
  "a \<in> set xs \<Longrightarrow>
   \<exists>i. py_index xs a = Inr i \<and> i < length xs \<and> xs ! i = a \<and> (\<forall>j<i. xs ! j \<noteq> a)"
proof (induction xs)
  case Nil
  then show ?case by simp
next
  case (Cons x xs)
  show ?case
  proof (cases "x = a")
    case True
    then show ?thesis by simp
  next
    case False
    with Cons.prems have "a \<in> set xs" by simp
    from Cons.IH[OF this] obtain i where i: "py_index xs a = Inr i" "i < length xs" "xs ! i = a"
      "\<forall>j<i. xs ! j \<noteq> a" by blast
    have "\<forall>j<Suc i. (x # xs) ! j \<noteq> a"
    proof (intro allI impI)
      fix j assume "j < Suc i"
      then show "(x # xs) ! j \<noteq> a" using False i(4) by (cases j) simp_all
    qed
    with i False show ?thesis by simp
  qed
qed

lemma apply_joystick_snap:
  assumes "target_delta u \<noteq> 0" "targets \<noteq> []"
    and "case active_target_id self of None \<Rightarrow> True | Some a \<Rightarrow> a \<notin> set (ids_from 0 targets)"
  shows "apply_joystick (Some u) targets self
           = Inr ((apply_wide_zoom u self)\<lparr>active_target_id := Some (hd (ids_from 0 targets))\<rparr>)"
  using assms by (simp add: apply_joystick_def Let_def apply_wide_zoom_frame)

lemma apply_joystick_cycle:
  assumes "target_delta u \<noteq> 0" "targets \<noteq> []"
    and "active_target_id self = Some a" "a \<in> set (ids_from 0 targets)"
  shows "\<exists>i. py_index (ids_from 0 targets) a = Inr i \<and> i < length targets \<and>
             ids_from 0 targets ! i = a \<and> (\<forall>j<i. ids_from 0 targets ! j \<noteq> a) \<and>
             apply_joystick (Some u) targets self
               = Inr ((apply_wide_zoom u self)
                       \<lparr>active_target_id :=
                          Some (ids_from 0 targets ! nat ((int i + target_delta u) mod int (length targets))),
                        force_wide := False\<rparr>)"
proof -
  from py_index_first[OF assms(4)] obtain i where
    i: "py_index (ids_from 0 targets) a = Inr i" "i < length (ids_from 0 targets)"
       "ids_from 0 targets ! i = a" "\<forall>j<i. ids_from 0 targets ! j \<noteq> a" by blast
  have "apply_joystick (Some u) targets self
               = Inr ((apply_wide_zoom u self)
                       \<lparr>active_target_id :=
                          Some (ids_from 0 targets ! nat ((int i + target_delta u) mod int (length targets))),
                        force_wide := False\<rparr>)"
    using assms i(1) by (simp add: apply_joystick_def Let_def apply_wide_zoom_frame length_ids_from)
  with i show ?thesis by (auto simp add: length_ids_from)
qed

lemma apply_joystick_other:
  "target_delta u = 0 \<or> targets = [] \<Longrightarrow>
   apply_joystick (Some u) targets self = Inr (apply_wide_zoom u self)"
  by (auto simp add: apply_joystick_def Let_def)

lemma apply_joystick_cases:
  "apply_joystick j targets self = Inr self \<or>
   (\<exists>u. j = Some u \<and> (\<exists>s'. apply_joystick j targets self = Inr s' \<and>
       zoom s' = zoom (apply_wide_zoom u self) \<and> zoom_min s' = zoom_min self \<and>
       zoom_max s' = zoom_max self \<and> zoom_step s' = zoom_step self))"
proof (cases j)
  case None
  then show ?thesis by (simp add: apply_joystick_def)
next
  case (Some u)
  show ?thesis
  proof (cases "target_delta u = 0 \<or> targets = []")
    case True
    from apply_joystick_other[OF this, of self] Some show ?thesis
      by (simp add: apply_wide_zoom_frame)
  next
    case False
    then have d: "target_delta u \<noteq> 0" "targets \<noteq> []" by auto
    show ?thesis
    proof (cases "case active_target_id self of None \<Rightarrow> True | Some a \<Rightarrow> a \<notin> set (ids_from 0 targets)")
      case True
      from apply_joystick_snap[OF d True] Some show ?thesis
        by (simp add: apply_wide_zoom_frame)
    next
      case False
      then obtain a where "active_target_id self = Some a" "a \<in> set (ids_from 0 targets)"
        by (auto split: option.splits)
      from apply_joystick_cycle[OF d this] Some show ?thesis
        by (auto simp add: apply_wide_zoom_frame)
    qed
  qed
qed

lemma apply_wide_zoom_range:
  assumes "zoom_min s \<le> zoom_max s" "zoom_min s \<le> zoom s" "zoom s \<le> zoom_max s"
  shows "zoom_min s \<le> zoom (apply_wide_zoom u s) \<and> zoom (apply_wide_zoom u s) \<le> zoom_max s"
  using assms by (auto simp add: apply_wide_zoom_def Let_def)

lemma apply_joystick_zoom_range:
  assumes "zoom_min self \<le> zoom_max self" "zoom_min self \<le> zoom self" "zoom self \<le> zoom_max self"
  shows "\<exists>s'. apply_joystick j targets self = Inr s' \<and> zoom_min s' = zoom_min self \<and>
              zoom_max s' = zoom_max self \<and> zoom_step s' = zoom_step self \<and>
              zoom_min s' \<le> zoom s' \<and> zoom s' \<le> zoom_max s'"
  using apply_joystick_cases[of j targets self] apply_wide_zoom_range[OF assms] assms
  by auto

lemma zoom_in_at_max:
  assumes "zoom_min self \<le> zoom_max self" "0 \<le> zoom_step self" "zoom self = zoom_max self"
    "zoom_delta u = 1" "\<not> wide u"
  shows "zoom (apply_wide_zoom u self) = zoom_max self"
  using assms by (simp add: apply_wide_zoom_def Let_def max_def min_def)

section \<open>Properties of the selection\<close>






lemma positive_area: 
  "bbox t ! 0 < bbox t ! 2 \<Longrightarrow> bbox t ! 1 < bbox t ! 3 \<Longrightarrow> 0 < area t"
  by (simp add: area_def)


section \<open>Properties of the crop\<close>












lemma double_640_2_56: "to_double (640 / (5764607523034235 / 2251799813685248)) = 250"
  using to_double_near[of 7 "640 / (5764607523034235 / 2251799813685248)" 8796093022208000]
  by simp

lemma py_int_numeral: "py_int (numeral n) = numeral n"
  by (simp add: py_int_def)



text \<open>
  The quotient \<open>w / zoom\<close> is rounded to a double before \<open>int\<close> truncates it. For the
  double nearest to 2.56 the exact quotient \<open>640 / zoom\<close> is below 250 and truncates to
  249, but it rounds to the double 250: the crop is 250 columns wide.
\<close>

lemma crop_width_rounded_quotient:
  "py_int (640 / (5764607523034235 / 2251799813685248)) = 249 \<and>
   py_int (to_double (to_double (of_int 640) / (5764607523034235 / 2251799813685248))) = 250"
proof -
  have "py_int (640 / (5764607523034235 / 2251799813685248)) = 249"
    by (rule py_int_nonneg) simp_all
  moreover have "py_int (to_double (to_double (of_int 640) / (5764607523034235 / 2251799813685248))) = 250"
    using double_640_2_56 by (simp add: to_double_numeral py_int_numeral)
  ultimately show ?thesis by blast
qed

section \<open>The claims about the codec\<close>

text \<open>
  Claim C1 (round trip). For every command id that is a byte, every payload of at most
  65535 bytes, every 16-bit sequence number and either value of the ack-requested flag,
  \<open>build_packet\<close> raises nothing and \<open>parse_packet\<close> applied to its output
  returns the tuple with the original command id, payload and sequence number, and with
  \<open>ctrl\<close> equal to 1 when an acknowledgement was requested and 0 otherwise (bit 0 is
  the ack-requested bit). The checksum is a function of its input, and its value always
  fits in 16 bits.
\<close>

theorem build_parse_roundtrip:
  assumes "0 \<le> cmd_id" "cmd_id \<le> 255" "length data \<le> 65535" "0 \<le> seq" "seq \<le> 65535"
  shows "(\<exists>pkt. build_packet cmd_id data seq need_ack = Inr pkt \<and>
                parse_packet pkt = Inr (Some ((if need_ack then 1 else 0), seq, cmd_id, data))) \<and>
         (b1 = b2 \<longrightarrow> crc16_xmodem b1 init = crc16_xmodem b2 init) \<and>
         0 \<le> crc16_xmodem b1 init \<and> crc16_xmodem b1 init \<le> 65535"
  using build_then_parse[OF assms, of need_ack] crc16_range[of b1 init] by auto

theorem build_parse_roundtrip_witness:
  "build_packet 0x0E [1, 2, 3, 4] 7 True = Inr [85, 102, 1, 4, 0, 7, 0, 14, 1, 2, 3, 4, 175, 211] \<and>
   parse_packet [85, 102, 1, 4, 0, 7, 0, 14, 1, 2, 3, 4, 175, 211] = Inr (Some (1, 7, 14, [1, 2, 3, 4]))"
proof -
  have c: "crc16_xmodem [85, 102, 1, 4, 0, 7, 0, 14, 1, 2, 3, 4] 0 = 54191"
    by (simp add: crc16_xmodem_def crc_byte_def crc_shift_def funpow8)
  have b: "build_packet 0x0E [1, 2, 3, 4] 7 True = Inr [85, 102, 1, 4, 0, 7, 0, 14, 1, 2, 3, 4, 175, 211]"
    using build_packet_frame[of 14 "[1, 2, 3, 4]" 7 "[85, 102, 1, 4, 0, 7, 0, 14]" True 54191]
    by (simp add: c)
  from build_parse_roundtrip[of 14 "[1, 2, 3, 4]" 7 True]
  obtain pkt where "build_packet 0x0E [1, 2, 3, 4] 7 True = Inr pkt"
    "parse_packet pkt = Inr (Some (1, 7, 14, [1, 2, 3, 4]))" by auto
  with b show ?thesis by simp
qed

text \<open>
  Claim C3 (decoding never raises). \<open>parse_packet\<close> returns a value on every byte
  string. It returns \<open>None\<close> exactly when the buffer has fewer than 10 bytes, or its
  first two bytes are not the sync marker, or its last two bytes, read little-endian,
  differ from the checksum of all the bytes before them. Otherwise it returns the control
  byte, the sequence number, the command id and the slice \<open>raw[8 : 8 + length]\<close>,
  where \<open>length\<close> is the declared length read from bytes 3 and 4. A Python slice is cut
  at the end of the buffer, so the payload has \<open>min length (len raw - 8)\<close> bytes: it has
  exactly \<open>length\<close> bytes only when the declared length does not exceed what the buffer
  holds after the header, and the slice is not stopped before the two checksum bytes.
\<close>

theorem parse_packet_result:
  "\<exists>r. parse_packet raw = Inr r \<and>
     (r = None \<longleftrightarrow>
        (length raw < 10 \<or> take 2 raw \<noteq> STX \<or>
         uint (raw ! (length raw - 2)) + 256 * uint (raw ! (length raw - 1))
           \<noteq> crc16_xmodem (take (length raw - 2) raw) 0)) \<and>
     (\<forall>ctrl seq cmd_id data. r = Some (ctrl, seq, cmd_id, data) \<longrightarrow>
        ctrl = uint (raw ! 2) \<and> seq = uint (raw ! 5) + 256 * uint (raw ! 6) \<and>
        cmd_id = uint (raw ! 7) \<and>
        data = take (nat (uint (raw ! 3) + 256 * uint (raw ! 4))) (drop 8 raw) \<and>
        length data = min (nat (uint (raw ! 3) + 256 * uint (raw ! 4))) (length raw - 8))"
proof (cases "length raw < 10 \<or> take 2 raw \<noteq> STX")
  case True
  then have "parse_packet raw = Inr None" by (auto simp add: parse_packet_def)
  with True show ?thesis by auto
next
  case False
  then have a: "10 \<le> length raw" "take 2 raw = STX" by auto
  show ?thesis unfolding parse_packet_eq[OF a] using a by auto
qed

theorem parse_packet_result_witness:
  "parse_packet [85, 102, 1, 4, 0, 7, 0, 14, 1, 2, 3, 4, 175, 211] = Inr (Some (1, 7, 14, [1, 2, 3, 4])) \<and>
   parse_packet [85, 102, 1] = Inr None"
proof -
  define raw :: bytes where "raw = [85, 102, 1, 4, 0, 7, 0, 14, 1, 2, 3, 4, 175, 211]"
  define short :: bytes where "short = [85, 102, 1]"
  have c: "crc16_xmodem [85, 102, 1, 4, 0, 7, 0, 14, 1, 2, 3, 4] 0 = 54191"
    by (simp add: crc16_xmodem_def crc_byte_def crc_shift_def funpow8)
  obtain r where r: "parse_packet raw = Inr r"
    and n: "r = None \<longleftrightarrow>
        (length raw < 10 \<or> take 2 raw \<noteq> STX \<or>
         uint (raw ! (length raw - 2)) + 256 * uint (raw ! (length raw - 1))
           \<noteq> crc16_xmodem (take (length raw - 2) raw) 0)"
    and s: "\<And>ctrl seq cmd_id data. r = Some (ctrl, seq, cmd_id, data) \<Longrightarrow>
        ctrl = uint (raw ! 2) \<and> seq = uint (raw ! 5) + 256 * uint (raw ! 6) \<and>
        cmd_id = uint (raw ! 7) \<and>
        data = take (nat (uint (raw ! 3) + 256 * uint (raw ! 4))) (drop 8 raw)"
    using parse_packet_result[of raw] by blast
  have "\<not> (length raw < 10 \<or> take 2 raw \<noteq> STX \<or>
         uint (raw ! (length raw - 2)) + 256 * uint (raw ! (length raw - 1))
           \<noteq> crc16_xmodem (take (length raw - 2) raw) 0)"
    by (simp add: raw_def STX_def c)
  with n obtain ctrl seq cmd_id data where e: "r = Some (ctrl, seq, cmd_id, data)"
    by (cases r) auto
  from s[OF e] have "ctrl = 1 \<and> seq = 7 \<and> cmd_id = 14 \<and> data = [1, 2, 3, 4]"
    by (simp add: raw_def)
  with e r have one: "parse_packet raw = Inr (Some (1, 7, 14, [1, 2, 3, 4]))" by simp
  obtain r' where r': "parse_packet short = Inr r'"
    and n': "r' = None \<longleftrightarrow>
        (length short < 10 \<or> take 2 short \<noteq> STX \<or>
         uint (short ! (length short - 2)) + 256 * uint (short ! (length short - 1))
           \<noteq> crc16_xmodem (take (length short - 2) short) 0)"
    using parse_packet_result[of short] by blast
  have "length short < 10" by (simp add: short_def)
  with n' r' have two: "parse_packet short = Inr None" by simp
  from one two show ?thesis by (simp add: raw_def short_def)
qed

text \<open>
  A 10-byte buffer with a correct checksum that declares a payload of 5 bytes: the frame
  is accepted, and the payload returned is the two checksum bytes, not 5 bytes.
\<close>

theorem parse_packet_declared_length_counterexample:
  "parse_packet [0x55, 0x66, 0, 5, 0, 0, 0, 0x0D, 0x1F, 0x63] = Inr (Some (0, 0, 13, [0x1F, 0x63])) \<and>
   unpack_H (take 2 (drop 3 [0x55, 0x66, 0, 5, 0, 0, 0, 0x0D, 0x1F, 0x63])) = Inr 5 \<and>
   length [0x1F, 0x63 :: byte] = 2"
proof -
  have c: "crc16_xmodem [85, 102, 0, 5, 0, 0, 0, 13] 0 = 25375"
    by (simp add: crc16_xmodem_def crc_byte_def crc_shift_def funpow8)
  have "parse_packet [85, 102, 0, 5, 0, 0, 0, 13, 31, 99] = Inr (Some (0, 0, 13, [31, 99]))"
    using parse_packet_eq[of "[85, 102, 0, 5, 0, 0, 0, 13, 31, 99]"] by (simp add: STX_def c)
  then show ?thesis by (simp add: unpack_H_def)
qed

text \<open>
  Claim C9 (corruption detection). Whenever a buffer decodes as a frame, inverting any
  single bit of any byte before the two trailing checksum bytes (the sync marker included)
  gives a buffer that \<open>parse_packet\<close> rejects with \<open>None\<close>. The reason is that
  each step of the checksum is injective in the running value and in the byte read, so two
  buffers of equal length that differ in one byte have different checksums.
\<close>

theorem single_bit_flip_detected:
  assumes ok: "parse_packet raw = Inr (Some f)" and i: "i < length raw - 2" and k: "k < 8"
  shows "parse_packet (flip_bit_at raw i k) = Inr None"
proof -
  define b where "b = (raw ! i) XOR push_bit k 1"
  define n where "n = length raw - 2"
  have ne: "b \<noteq> raw ! i" using flipped_byte_neq[OF k] by (simp add: b_def)
  have len: "length (raw[i := b]) - 2 = n" by (simp add: n_def)
  have dr: "drop n (raw[i := b]) = drop n raw" using i by (simp add: n_def)
  have tk: "take n (raw[i := b]) = (take n raw)[i := b]" by (simp add: take_update_swap)
  have neq: "crc16_xmodem (take n raw) 0 \<noteq> crc16_xmodem ((take n raw)[i := b]) 0"
    using i ne crc16_upd_neq[of i "take n raw" b] by (simp add: n_def)
  have rc: "unpack_H (drop n raw) = Inr (crc16_xmodem (take n raw) 0)"
    using parse_packet_SomeD(3)[OF ok] by (simp add: n_def)
  have "parse_packet (raw[i := b]) = Inr None"
  proof (rule parse_packet_crc_mismatch)
    show "unpack_H (drop (length (raw[i := b]) - 2) (raw[i := b])) = Inr (crc16_xmodem (take n raw) 0)"
      unfolding len dr by (rule rc)
    show "crc16_xmodem (take n raw) 0 \<noteq> crc16_xmodem (take (length (raw[i := b]) - 2) (raw[i := b])) 0"
      unfolding len tk by (rule neq)
  qed
  then show ?thesis by (simp add: flip_bit_at_def b_def)
qed

theorem single_bit_flip_detected_witness:
  "parse_packet [85, 102, 1, 4, 0, 7, 0, 14, 1, 2, 3, 4, 175, 211] = Inr (Some (1, 7, 14, [1, 2, 3, 4])) \<and>
   flip_bit_at [85, 102, 1, 4, 0, 7, 0, 14, 1, 2, 3, 4, 175, 211] 9 3
     = [85, 102, 1, 4, 0, 7, 0, 14, 1, 10, 3, 4, 175, 211] \<and>
   parse_packet [85, 102, 1, 4, 0, 7, 0, 14, 1, 10, 3, 4, 175, 211] = Inr None"
proof -
  have c: "crc16_xmodem [85, 102, 1, 4, 0, 7, 0, 14, 1, 2, 3, 4] 0 = 54191"
    by (simp add: crc16_xmodem_def crc_byte_def crc_shift_def funpow8)
  have p: "parse_packet [85, 102, 1, 4, 0, 7, 0, 14, 1, 2, 3, 4, 175, 211] = Inr (Some (1, 7, 14, [1, 2, 3, 4]))"
    using parse_packet_eq[of "[85, 102, 1, 4, 0, 7, 0, 14, 1, 2, 3, 4, 175, 211]"]
    by (simp add: STX_def c)
  have f: "flip_bit_at [85, 102, 1, 4, 0, 7, 0, 14, 1, 2, 3, 4, 175, 211] 9 3
     = [85, 102, 1, 4, 0, 7, 0, 14, 1, 10, 3, 4, 175, 211]"
    by (simp add: flip_bit_at_def)
  from single_bit_flip_detected[OF p, of 9 3] f p show ?thesis by simp
qed

section \<open>The claims about the command channel\<close>

text \<open>
  Claim C2 (clamping). For every requested pair of angles, \<open>set_angles_with_ack\<close>
  sends one frame with command id \<open>0x0E\<close> and the ack-requested bit, whose payload is
  four bytes: two little-endian signed 16-bit values, the tenths of a degree of the
  clamped yaw and of the clamped pitch. The clamped yaw \<open>y\<close> is \<open>-135\<close> for a request
  below \<open>-135\<close>, \<open>135\<close> for a request above \<open>135\<close>, and the request itself in between;
  the clamped pitch \<open>p\<close> likewise with \<open>-90\<close> and \<open>45\<close>. The third component of the
  result, the command reported as sent, is \<open>(y, p)\<close>. The value encoded for \<open>y\<close> is
  \<open>round(y * 10.0)\<close>: the product is rounded to a double, and \<open>round\<close> takes the
  nearest integer, the even one at a tie; it lies in \<open>[-1350, 1350]\<close>, within
  \<open>1/2 + 2^-42\<close> of \<open>10 y\<close>, and for \<open>p\<close> in \<open>[-900, 450]\<close>. For the request
  \<open>(200, -999)\<close> the clamped pair is \<open>(135, -90)\<close>, encoded as 1350 and -900; the
  request \<open>(10, -5)\<close>, inside both ranges, is reported as \<open>(10, -5)\<close> and encoded as
  100 and -50. The sequence number has to fit in 16 bits, otherwise \<open>struct.pack\<close> raises.
\<close>

theorem set_angles_clamps:
  assumes "0 \<le> seq" "seq \<le> 65535"
  shows "(let y = (if yaw_deg < - 135 then - 135 else if 135 < yaw_deg then 135 else yaw_deg);
              p = (if pitch_deg < - 90 then - 90 else if 45 < pitch_deg then 45 else pitch_deg)
          in (\<exists>pkt payload ok ack.
                set_angles_with_ack s env seq yaw_deg pitch_deg
                  = Inr ((ok, ack, (y, p)), s\<lparr>sent := sent s @ [pkt]\<rparr>) \<and>
                parse_packet pkt = Inr (Some (1, seq, 0x0E, payload)) \<and> length payload = 4 \<and>
                shorts payload = [py_round (to_double (y * 10)), py_round (to_double (p * 10))]) \<and>
             - 1350 \<le> py_round (to_double (y * 10)) \<and> py_round (to_double (y * 10)) \<le> 1350 \<and>
             - 900 \<le> py_round (to_double (p * 10)) \<and> py_round (to_double (p * 10)) \<le> 450 \<and>
             \<bar>of_int (py_round (to_double (y * 10))) - y * 10\<bar> \<le> 1 / 2 + 1 / 2 ^ 42 \<and>
             \<bar>of_int (py_round (to_double (p * 10))) - p * 10\<bar> \<le> 1 / 2 + 1 / 2 ^ 42) \<and>
         \<bar>of_int (py_round x) - x\<bar> \<le> 1 / 2 \<and>
         (\<bar>of_int (py_round x) - x\<bar> = 1 / 2 \<longrightarrow> even (py_round x)) \<and>
         \<bar>to_double x - x\<bar> \<le> \<bar>x\<bar> / 2 ^ 53 + 2 powi (- 1075) \<and>
         (\<bar>n\<bar> < 2 ^ 53 \<longrightarrow> to_double (of_int n) = of_int n) \<and>
         py_round (to_double (135 * 10)) = 1350 \<and> py_round (to_double (- 90 * 10)) = - 900"
proof -
  define y where "y = clamp yaw_deg YAW_MIN YAW_MAX"
  define p where "p = clamp pitch_deg PITCH_MIN PITCH_MAX"
  have sent: "\<exists>pkt payload ok ack.
     set_angles_with_ack s env seq yaw_deg pitch_deg
       = Inr ((ok, ack, (y, p)), s\<lparr>sent := sent s @ [pkt]\<rparr>) \<and>
     parse_packet pkt = Inr (Some (1, seq, 0x0E, payload)) \<and> length payload = 4 \<and>
     shorts payload = [py_round (to_double (y * 10)), py_round (to_double (p * 10))]"
    unfolding y_def p_def
    using set_angles_sent[OF assms, of s env yaw_deg pitch_deg] by blast
  have yr: "- 135 \<le> y" "y \<le> 135"
    using clamp_range[of YAW_MIN YAW_MAX yaw_deg] by (simp_all add: y_def YAW_MIN_def YAW_MAX_def)
  have pr: "- 90 \<le> p" "p \<le> 45"
    using clamp_range[of PITCH_MIN PITCH_MAX pitch_deg]
    by (simp_all add: p_def PITCH_MIN_def PITCH_MAX_def)
  have yb: "- 1350 \<le> py_round (to_double (y * 10)) \<and> py_round (to_double (y * 10)) \<le> 1350"
    using py_round_to_double_bounds[of "- 1350" "y * 10" 1350] yr by simp
  have pb: "- 900 \<le> py_round (to_double (p * 10)) \<and> py_round (to_double (p * 10)) \<le> 450"
    using py_round_to_double_bounds[of "- 900" "p * 10" 450] pr by simp
  have near: "\<bar>of_int (py_round (to_double z)) - z\<bar> \<le> 1 / 2 + 1 / 2 ^ 42" if "\<bar>z\<bar> \<le> 1350" for z
  proof -
    have e: "\<bar>to_double z - z\<bar> \<le> \<bar>z\<bar> / 2 ^ 53 + 2 powi (- 1075)" by (rule to_double_error)
    have "(2::rat) powi (- 1075) \<le> 2 powi (- 53)" by (intro power_int_increasing) simp_all
    also have "(2::rat) powi (- 53) = 1 / 2 ^ 53" by (simp add: power_int_minus_divide)
    finally have t: "(2::rat) powi (- 1075) \<le> 1 / 2 ^ 53" .
    have "\<bar>z\<bar> / 2 ^ 53 \<le> 1350 / 2 ^ 53" using that by (simp add: divide_right_mono)
    with t have "\<bar>z\<bar> / 2 ^ 53 + 2 powi (- 1075) \<le> 1350 / 2 ^ 53 + 1 / 2 ^ 53" by linarith
    also have "(1350::rat) / 2 ^ 53 + 1 / 2 ^ 53 \<le> 1 / 2 ^ 42" by simp
    finally have "\<bar>to_double z - z\<bar> \<le> 1 / 2 ^ 42" using e by linarith
    moreover have "\<bar>of_int (py_round (to_double z)) - to_double z\<bar> \<le> 1 / 2"
      by (rule py_round_error)
    ultimately show ?thesis by linarith
  qed
  have yn: "\<bar>of_int (py_round (to_double (y * 10))) - y * 10\<bar> \<le> 1 / 2 + 1 / 2 ^ 42"
    by (rule near) (use yr in linarith)
  have pn: "\<bar>of_int (py_round (to_double (p * 10))) - p * 10\<bar> \<le> 1 / 2 + 1 / 2 ^ 42"
    by (rule near) (use pr in linarith)
  have first: "(\<exists>pkt payload ok ack.
                set_angles_with_ack s env seq yaw_deg pitch_deg
                  = Inr ((ok, ack, (y, p)), s\<lparr>sent := sent s @ [pkt]\<rparr>) \<and>
                parse_packet pkt = Inr (Some (1, seq, 0x0E, payload)) \<and> length payload = 4 \<and>
                shorts payload = [py_round (to_double (y * 10)), py_round (to_double (p * 10))]) \<and>
             - 1350 \<le> py_round (to_double (y * 10)) \<and> py_round (to_double (y * 10)) \<le> 1350 \<and>
             - 900 \<le> py_round (to_double (p * 10)) \<and> py_round (to_double (p * 10)) \<le> 450 \<and>
             \<bar>of_int (py_round (to_double (y * 10))) - y * 10\<bar> \<le> 1 / 2 + 1 / 2 ^ 42 \<and>
             \<bar>of_int (py_round (to_double (p * 10))) - p * 10\<bar> \<le> 1 / 2 + 1 / 2 ^ 42"
    using sent yb pb yn pn by blast
  have ye: "y = (if yaw_deg < - 135 then - 135 else if 135 < yaw_deg then 135 else yaw_deg)"
    unfolding y_def by (rule clamp_yaw)
  have pe: "p = (if pitch_deg < - 90 then - 90 else if 45 < pitch_deg then 45 else pitch_deg)"
    unfolding p_def by (rule clamp_pitch)
  have a: "\<bar>of_int (py_round x) - x\<bar> \<le> 1 / 2" by (rule py_round_error)
  have b: "\<bar>of_int (py_round x) - x\<bar> = 1 / 2 \<longrightarrow> even (py_round x)"
    using py_round_even_tie[of x] by blast
  have c: "\<bar>to_double x - x\<bar> \<le> \<bar>x\<bar> / 2 ^ 53 + 2 powi (- 1075)" by (rule to_double_error)
  have d: "\<bar>n\<bar> < 2 ^ 53 \<longrightarrow> to_double (of_int n) = of_int n"
    using to_double_of_int[of n] by blast
  have r: "py_round (to_double (135 * 10)) = 1350 \<and> py_round (to_double (- 90 * 10)) = - 900"
    using py_round_of_int[of 1350] py_round_of_int[of "- 900"]
    by (simp add: to_double_numeral to_double_neg_numeral)
  show ?thesis
    unfolding Let_def ye[symmetric] pe[symmetric]
    using first a b c d r by blast
qed

theorem set_angles_clamps_witness:
  "set_angles_with_ack \<lparr>sent = []\<rparr> WindowElapsed 1 200 (- 999)
     = Inr ((False, None, (135, - 90)),
            \<lparr>sent = [[85, 102, 1, 4, 0, 1, 0, 14, 70, 5, 124, 252, 219, 190]]\<rparr>) \<and>
   parse_packet [85, 102, 1, 4, 0, 1, 0, 14, 70, 5, 124, 252, 219, 190]
     = Inr (Some (1, 1, 14, [70, 5, 124, 252])) \<and>
   shorts [70, 5, 124, 252] = [1350, - 900] \<and>
   set_angles_with_ack \<lparr>sent = []\<rparr> WindowElapsed 1 10 (- 5)
     = Inr ((False, None, (10, - 5)),
            \<lparr>sent = [[85, 102, 1, 4, 0, 1, 0, 14, 100, 0, 206, 255, 1, 199]]\<rparr>) \<and>
   shorts [100, 0, 206, 255] = [100, - 50] \<and>
   py_round (to_double (135 * 10)) = 1350 \<and> py_round (to_double (- 90 * 10)) = - 900 \<and>
   \<bar>of_int (py_round (5 / 2)) - 5 / 2\<bar> = (1 / 2 :: rat) \<and> even (py_round (5 / 2)) \<and>
   \<bar>7 :: int\<bar> < 2 ^ 53 \<and> to_double (of_int 7) = of_int 7"
proof -
  have t: "(let y = (if (200::rat) < - 135 then - 135 else if 135 < (200::rat) then 135 else 200);
              p = (if (- 999::rat) < - 90 then - 90 else if 45 < (- 999::rat) then 45 else - 999)
          in (\<exists>pkt payload ok ack.
                set_angles_with_ack \<lparr>sent = []\<rparr> WindowElapsed 1 200 (- 999)
                  = Inr ((ok, ack, (y, p)), \<lparr>sent = []\<rparr>\<lparr>sent := sent \<lparr>sent = []\<rparr> @ [pkt]\<rparr>) \<and>
                parse_packet pkt = Inr (Some (1, 1, 0x0E, payload)) \<and> length payload = 4 \<and>
                shorts payload = [py_round (to_double (y * 10)), py_round (to_double (p * 10))]) \<and>
             - 1350 \<le> py_round (to_double (y * 10)) \<and> py_round (to_double (y * 10)) \<le> 1350 \<and>
             - 900 \<le> py_round (to_double (p * 10)) \<and> py_round (to_double (p * 10)) \<le> 450 \<and>
             \<bar>of_int (py_round (to_double (y * 10))) - y * 10\<bar> \<le> 1 / 2 + 1 / 2 ^ 42 \<and>
             \<bar>of_int (py_round (to_double (p * 10))) - p * 10\<bar> \<le> 1 / 2 + 1 / 2 ^ 42) \<and>
         \<bar>of_int (py_round (5 / 2)) - 5 / 2\<bar> \<le> (1 / 2 :: rat) \<and>
         (\<bar>of_int (py_round (5 / 2)) - 5 / 2\<bar> = (1 / 2 :: rat) \<longrightarrow> even (py_round (5 / 2))) \<and>
         \<bar>to_double (5 / 2) - 5 / 2\<bar> \<le> \<bar>5 / 2\<bar> / 2 ^ 53 + 2 powi (- 1075) \<and>
         (\<bar>7 :: int\<bar> < 2 ^ 53 \<longrightarrow> to_double (of_int 7) = of_int 7) \<and>
         py_round (to_double (135 * 10)) = 1350 \<and> py_round (to_double (- 90 * 10)) = - 900"
    by (rule set_angles_clamps[of 1 200 "- 999" "\<lparr>sent = []\<rparr>" WindowElapsed "5 / 2" 7]) simp_all
  then have r: "py_round (to_double (135 * 10)) = 1350" "py_round (to_double (- 90 * 10)) = - 900"
    by blast+
  from t have i: "\<bar>7 :: int\<bar> < 2 ^ 53 \<longrightarrow> to_double (of_int 7) = of_int 7" by blast
  from t have ev: "\<bar>of_int (py_round (5 / 2)) - 5 / 2\<bar> = (1 / 2 :: rat) \<longrightarrow> even (py_round (5 / 2))"
    by blast
  from t obtain pkt payload ok ack where
    e: "set_angles_with_ack \<lparr>sent = []\<rparr> WindowElapsed 1 200 (- 999)
       = Inr ((ok, ack, (135, - 90)), \<lparr>sent = []\<rparr>\<lparr>sent := sent \<lparr>sent = []\<rparr> @ [pkt]\<rparr>)"
    and p: "parse_packet pkt = Inr (Some (1, 1, 0x0E, payload))"
    and sh: "shorts payload = [py_round (to_double (135 * 10)), py_round (to_double (- 90 * 10))]"
    unfolding Let_def by auto
  from e have k: "pkt = [85, 102, 1, 4, 0, 1, 0, 14, 70, 5, 124, 252, 219, 190]"
    by (simp add: set_angles_example)
  have c: "crc16_xmodem [85, 102, 1, 4, 0, 1, 0, 14, 70, 5, 124, 252] 0 = 48859"
    by (simp add: crc16_xmodem_def crc_byte_def crc_shift_def funpow8)
  have q: "parse_packet [85, 102, 1, 4, 0, 1, 0, 14, 70, 5, 124, 252, 219, 190]
     = Inr (Some (1, 1, 14, [70, 5, 124, 252]))"
    using parse_packet_eq[of "[85, 102, 1, 4, 0, 1, 0, 14, 70, 5, 124, 252, 219, 190]"]
    by (simp add: STX_def c)
  from p k q have "payload = [70, 5, 124, 252]" by simp
  with sh r have s: "shorts [70, 5, 124, 252] = [1350, - 900]" by simp
  have h: "py_round (5 / 2) = 2" using py_round_tie[of 2] by simp
  have m: "\<bar>of_int (py_round (5 / 2)) - 5 / 2\<bar> = (1 / 2 :: rat)" by (simp add: h)
  from ev m have v: "even (py_round (5 / 2))" by blast
  have "\<bar>7 :: int\<bar> < 2 ^ 53" by simp
  with i have w: "\<bar>7 :: int\<bar> < 2 ^ 53 \<and> to_double (of_int 7) = of_int 7" by blast
  have g: "set_angles_with_ack \<lparr>sent = []\<rparr> WindowElapsed 1 10 (- 5)
     = Inr ((False, None, (10, - 5)),
            \<lparr>sent = [[85, 102, 1, 4, 0, 1, 0, 14, 100, 0, 206, 255, 1, 199]]\<rparr>)"
    by (rule set_angles_example_in_range)
  have u: "shorts [100, 0, 206, 255] = [100, - 50]" by (simp add: le_i16_def)
  from q s r m v w g u show ?thesis by (simp add: set_angles_example)
qed


text \<open>
  Claim C4 (waiting for the reply). Both operations send their frame and then poll. The
  outcome of \<open>request_attitude\<close> is the decoded payload of the first datagram that
  decodes as a frame with command id \<open>0x0D\<close> and at least 12 payload bytes, whether or
  not its ack bit is set; the outcome of \<open>set_angles_with_ack\<close> is \<open>True\<close> with the
  decoded payload of the first datagram that decodes as a frame with command id
  \<open>0x0E\<close>, the ack bit (bit 1 of \<open>ctrl\<close>) set and at least 6 payload bytes. Every
  other datagram is skipped and polling goes on. When the window ends, by the clock or by
  a socket timeout, before such a datagram arrives, the outcome is \<open>None\<close>,
  respectively \<open>(False, None)\<close>.
\<close>

theorem polling_outcome:
  "request_attitude_poll env = Inr (attitude_outcome env) \<and>
   set_angles_poll env = Inr (angles_outcome env) \<and>
   (0 \<le> seq \<and> seq \<le> 65535 \<longrightarrow>
     (\<exists>pkt. build_packet 0x0D [] seq True = Inr pkt \<and>
        request_attitude s env seq = Inr (attitude_outcome env, s\<lparr>sent := sent s @ [pkt]\<rparr>)) \<and>
     (\<exists>pkt payload. build_packet 0x0E payload seq True = Inr pkt \<and>
        set_angles_with_ack s env seq yaw_deg pitch_deg
          = Inr ((fst (angles_outcome env), snd (angles_outcome env),
                  (clamp yaw_deg YAW_MIN YAW_MAX, clamp pitch_deg PITCH_MIN PITCH_MAX)),
                 s\<lparr>sent := sent s @ [pkt]\<rparr>)))"
proof -
  have "\<exists>pkt payload. build_packet 0x0E payload seq True = Inr pkt \<and>
        set_angles_with_ack s env seq yaw_deg pitch_deg
          = Inr ((fst (angles_outcome env), snd (angles_outcome env),
                  (clamp yaw_deg YAW_MIN YAW_MAX, clamp pitch_deg PITCH_MIN PITCH_MAX)),
                 s\<lparr>sent := sent s @ [pkt]\<rparr>)"
    if "0 \<le> seq" "seq \<le> 65535"
    using set_angles_sent[OF that, of s env yaw_deg pitch_deg] by blast
  then show ?thesis
    using request_attitude_poll_outcome[of env] set_angles_poll_outcome[of env]
      request_attitude_sent[of seq s env] by blast
qed


theorem polling_outcome_witness:
  "request_attitude \<lparr>sent = []\<rparr>
      (Datagram [1, 2, 3]
        (Datagram [85, 102, 2, 6, 0, 0, 0, 14, 100, 0, 206, 255, 0, 0, 237, 209]
          (Datagram [85, 102, 0, 12, 0, 0, 0, 13, 100, 0, 206, 255, 0, 0, 0, 0, 0, 0, 0, 0, 80, 98]
            SocketTimeout))) 5
     = Inr (Some (10, - 5, 0), \<lparr>sent = [[85, 102, 1, 0, 0, 5, 0, 13, 24, 238]]\<rparr>) \<and>
   set_angles_poll
      (Datagram [1, 2, 3]
        (Datagram [85, 102, 0, 12, 0, 0, 0, 13, 100, 0, 206, 255, 0, 0, 0, 0, 0, 0, 0, 0, 80, 98]
          (Datagram [85, 102, 2, 6, 0, 0, 0, 14, 100, 0, 206, 255, 0, 0, 237, 209]
            WindowElapsed)))
     = Inr (True, Some (10, - 5, 0)) \<and>
   set_angles_poll (Datagram [1, 2, 3] WindowElapsed) = Inr (False, None)"
proof -
  define junk :: bytes where "junk = [1, 2, 3]"
  define ack :: bytes where "ack = [85, 102, 2, 6, 0, 0, 0, 14, 100, 0, 206, 255, 0, 0, 237, 209]"
  define att :: bytes where
    "att = [85, 102, 0, 12, 0, 0, 0, 13, 100, 0, 206, 255, 0, 0, 0, 0, 0, 0, 0, 0, 80, 98]"
  have j: "\<not> attitude_reply junk" "\<not> angles_ack junk"
    by (simp_all add: junk_def attitude_reply_def angles_ack_def short_parse)
  have a: "\<not> attitude_reply ack" "angles_ack ack"
    by (simp_all add: ack_def attitude_reply_def angles_ack_def ack_frame_parse)
  have t: "attitude_reply att" "\<not> angles_ack att"
    by (simp_all add: att_def attitude_reply_def angles_ack_def stream_frame_parse)
  have pa: "tenths3 (frame_payload ack) = (10, - 5, 0)"
    by (simp add: ack_def frame_payload_def ack_frame_parse tenths3_def le_i16_def)
  have pt: "tenths3 (frame_payload att) = (10, - 5, 0)"
    by (simp add: att_def frame_payload_def stream_frame_parse tenths3_def le_i16_def)
  have o1: "attitude_outcome (Datagram junk (Datagram ack (Datagram att SocketTimeout)))
              = Some (10, - 5, 0)"
    by (simp add: attitude_outcome_def j a t pt)
  have o2: "angles_outcome (Datagram junk (Datagram att (Datagram ack WindowElapsed)))
              = (True, Some (10, - 5, 0))"
    by (simp add: angles_outcome_def j a t pa)
  have o3: "angles_outcome (Datagram junk WindowElapsed) = (False, None)"
    by (simp add: angles_outcome_def j)
  have r: "(0::int) \<le> 5 \<and> (5::int) \<le> 65535" by simp
  from polling_outcome[of "Datagram junk (Datagram ack (Datagram att SocketTimeout))" 5 "\<lparr>sent = []\<rparr>"] r
  obtain pkt where "build_packet 0x0D [] 5 True = Inr pkt"
    "request_attitude \<lparr>sent = []\<rparr> (Datagram junk (Datagram ack (Datagram att SocketTimeout))) 5
       = Inr (attitude_outcome (Datagram junk (Datagram ack (Datagram att SocketTimeout))),
              \<lparr>sent = []\<rparr>\<lparr>sent := sent \<lparr>sent = []\<rparr> @ [pkt]\<rparr>)"
    by blast
  then have one: "request_attitude \<lparr>sent = []\<rparr> (Datagram junk (Datagram ack (Datagram att SocketTimeout))) 5
       = Inr (Some (10, - 5, 0), \<lparr>sent = [[85, 102, 1, 0, 0, 5, 0, 13, 24, 238]]\<rparr>)"
    by (simp add: o1 request_packet_5)
  have two: "set_angles_poll (Datagram junk (Datagram att (Datagram ack WindowElapsed)))
        = Inr (True, Some (10, - 5, 0))"
    using polling_outcome[of "Datagram junk (Datagram att (Datagram ack WindowElapsed))"]
    by (simp add: o2)
  have three: "set_angles_poll (Datagram junk WindowElapsed) = Inr (False, None)"
    using polling_outcome[of "Datagram junk WindowElapsed"] by (simp add: o3)
  from one two three show ?thesis by (simp add: junk_def ack_def att_def)
qed


text \<open>
  A frame with command id \<open>0x0D\<close>, twelve payload bytes and \<open>ctrl = 0\<close>, so with
  the ack bit unset, is accepted by \<open>request_attitude\<close>: it is not skipped.
\<close>

theorem attitude_reply_without_ack_bit_counterexample:
  "parse_packet [85, 102, 0, 12, 0, 0, 0, 13, 100, 0, 206, 255, 0, 0, 0, 0, 0, 0, 0, 0, 80, 98]
     = Inr (Some (0, 0, 13, [100, 0, 206, 255, 0, 0, 0, 0, 0, 0, 0, 0])) \<and>
   (0::int) AND 0x02 = 0 \<and>
   request_attitude_poll
     (Datagram [85, 102, 0, 12, 0, 0, 0, 13, 100, 0, 206, 255, 0, 0, 0, 0, 0, 0, 0, 0, 80, 98]
        WindowElapsed)
     = Inr (Some (10, - 5, 0))"
  by (simp add: stream_frame_parse unpack_hs_def le_i16_def)

section \<open>The claims about target selection and zoom\<close>

text \<open>
  Claim C6 (target cycling). The identities of a frame are the ids of its detections in
  list order, the position standing in for a missing id. On an event with a non-zero
  \<open>target_delta\<close> and a non-empty detection list the handler raises nothing; when the
  active identity is none of the identities of the frame (in particular when there is no
  active identity yet), the new active identity is the first identity of the list;
  otherwise it is the identity found \<open>target_delta\<close> positions further, counted
  circularly from the first position that holds the active identity. With identities
  \<open>[3, 7, 9]\<close>, from 7 a step of +1 gives 9 and from 9 a step of +1 gives 3; with
  identities \<open>[2, 5]\<close> and active identity 7 the result is 2. Three detections of which
  only the second has an id, 7, have the identities \<open>[0, 7, 2]\<close>: from 7 a step of +1
  gives 2, and from 2 a step of +1 gives 0.
\<close>

theorem target_cycling:
  assumes "target_delta u \<noteq> 0" "targets \<noteq> []"
  shows "length (ids_from 0 targets) = length targets \<and>
         (\<forall>k<length targets.
            ids_from 0 targets ! k = (case ident (targets ! k) of None \<Rightarrow> int k | Some tid \<Rightarrow> tid)) \<and>
         (\<exists>s'. apply_joystick (Some u) targets self = Inr s' \<and>
            (case active_target_id self of
               None \<Rightarrow> active_target_id s' = Some (ids_from 0 targets ! 0)
             | Some a \<Rightarrow>
                 if a \<notin> set (ids_from 0 targets)
                 then active_target_id s' = Some (ids_from 0 targets ! 0)
                 else (\<exists>i<length targets.
                         ids_from 0 targets ! i = a \<and> (\<forall>j<i. ids_from 0 targets ! j \<noteq> a) \<and>
                         active_target_id s' =
                           Some (ids_from 0 targets !
                                   nat ((int i + target_delta u) mod int (length targets))))))"
proof -
  have ne: "ids_from 0 targets \<noteq> []" using assms(2) by (cases targets) simp_all
  then have h: "hd (ids_from 0 targets) = ids_from 0 targets ! 0" by (simp add: hd_conv_nth)
  have l: "length (ids_from 0 targets) = length targets" by (rule length_ids_from)
  have n: "\<forall>k<length targets.
            ids_from 0 targets ! k = (case ident (targets ! k) of None \<Rightarrow> int k | Some tid \<Rightarrow> tid)"
    using ids_from_nth[of _ targets 0] by (simp add: identity_def)
  have "\<exists>s'. apply_joystick (Some u) targets self = Inr s' \<and>
            (case active_target_id self of
               None \<Rightarrow> active_target_id s' = Some (ids_from 0 targets ! 0)
             | Some a \<Rightarrow>
                 if a \<notin> set (ids_from 0 targets)
                 then active_target_id s' = Some (ids_from 0 targets ! 0)
                 else (\<exists>i<length targets.
                         ids_from 0 targets ! i = a \<and> (\<forall>j<i. ids_from 0 targets ! j \<noteq> a) \<and>
                         active_target_id s' =
                           Some (ids_from 0 targets !
                                   nat ((int i + target_delta u) mod int (length targets)))))"
  proof (cases "case active_target_id self of None \<Rightarrow> True | Some a \<Rightarrow> a \<notin> set (ids_from 0 targets)")
    case True
    from apply_joystick_snap[OF assms True] True h show ?thesis
      by (auto split: option.splits)
  next
    case False
    then obtain a where a: "active_target_id self = Some a" "a \<in> set (ids_from 0 targets)"
      by (auto split: option.splits)
    from apply_joystick_cycle[OF assms a] obtain i where
      i: "i < length targets" "ids_from 0 targets ! i = a" "\<forall>j<i. ids_from 0 targets ! j \<noteq> a"
      and e: "apply_joystick (Some u) targets self
               = Inr ((apply_wide_zoom u self)
                       \<lparr>active_target_id :=
                          Some (ids_from 0 targets ! nat ((int i + target_delta u) mod int (length targets))),
                        force_wide := False\<rparr>)" by blast
    have "active_target_id ((apply_wide_zoom u self)
                       \<lparr>active_target_id :=
                          Some (ids_from 0 targets ! nat ((int i + target_delta u) mod int (length targets))),
                        force_wide := False\<rparr>)
          = Some (ids_from 0 targets ! nat ((int i + target_delta u) mod int (length targets)))"
      by simp
    with e i a show ?thesis by auto
  qed
  with l n show ?thesis by blast
qed

theorem target_cycling_witness:
  "map_sum id active_target_id
     (apply_joystick (Some \<lparr>target_delta = 1, zoom_delta = 0, wide = False\<rparr>)
        [\<lparr>ident = Some 3, bbox = [0, 0, 1, 1]\<rparr>, \<lparr>ident = Some 7, bbox = [0, 0, 1, 1]\<rparr>,
         \<lparr>ident = Some 9, bbox = [0, 0, 1, 1]\<rparr>]
        \<lparr>zoom_min = 1, zoom_max = 3, zoom_step = 1 / 10, zoom = 1, force_wide = False,
         active_target_id = Some 7\<rparr>) = Inr (Some 9) \<and>
   map_sum id active_target_id
     (apply_joystick (Some \<lparr>target_delta = 1, zoom_delta = 0, wide = False\<rparr>)
        [\<lparr>ident = Some 3, bbox = [0, 0, 1, 1]\<rparr>, \<lparr>ident = Some 7, bbox = [0, 0, 1, 1]\<rparr>,
         \<lparr>ident = Some 9, bbox = [0, 0, 1, 1]\<rparr>]
        \<lparr>zoom_min = 1, zoom_max = 3, zoom_step = 1 / 10, zoom = 1, force_wide = False,
         active_target_id = Some 9\<rparr>) = Inr (Some 3) \<and>
   map_sum id active_target_id
     (apply_joystick (Some \<lparr>target_delta = 1, zoom_delta = 0, wide = False\<rparr>)
        [\<lparr>ident = Some 2, bbox = [0, 0, 1, 1]\<rparr>, \<lparr>ident = Some 5, bbox = [0, 0, 1, 1]\<rparr>]
        \<lparr>zoom_min = 1, zoom_max = 3, zoom_step = 1 / 10, zoom = 1, force_wide = False,
         active_target_id = Some 7\<rparr>) = Inr (Some 2) \<and>
   ids_from 0 [\<lparr>ident = None, bbox = [0, 0, 1, 1]\<rparr>, \<lparr>ident = Some 7, bbox = [0, 0, 1, 1]\<rparr>,
               \<lparr>ident = None, bbox = [0, 0, 1, 1]\<rparr>] = [0, 7, 2] \<and>
   map_sum id active_target_id
     (apply_joystick (Some \<lparr>target_delta = 1, zoom_delta = 0, wide = False\<rparr>)
        [\<lparr>ident = None, bbox = [0, 0, 1, 1]\<rparr>, \<lparr>ident = Some 7, bbox = [0, 0, 1, 1]\<rparr>,
         \<lparr>ident = None, bbox = [0, 0, 1, 1]\<rparr>]
        \<lparr>zoom_min = 1, zoom_max = 3, zoom_step = 1 / 10, zoom = 1, force_wide = False,
         active_target_id = Some 7\<rparr>) = Inr (Some 2) \<and>
   map_sum id active_target_id
     (apply_joystick (Some \<lparr>target_delta = 1, zoom_delta = 0, wide = False\<rparr>)
        [\<lparr>ident = None, bbox = [0, 0, 1, 1]\<rparr>, \<lparr>ident = Some 7, bbox = [0, 0, 1, 1]\<rparr>,
         \<lparr>ident = None, bbox = [0, 0, 1, 1]\<rparr>]
        \<lparr>zoom_min = 1, zoom_max = 3, zoom_step = 1 / 10, zoom = 1, force_wide = False,
         active_target_id = Some 2\<rparr>) = Inr (Some 0)"
proof -
  define C where "C = [\<lparr>ident = None, bbox = [0, 0, 1, 1]\<rparr>, \<lparr>ident = Some 7, bbox = [0, 0, 1, 1]\<rparr>,
         \<lparr>ident = None, bbox = [0, 0, 1, 1 :: rat]\<rparr>]"
  define u where "u = \<lparr>target_delta = 1, zoom_delta = 0, wide = False\<rparr>"
  define A where "A = [\<lparr>ident = Some 3, bbox = [0, 0, 1, 1]\<rparr>, \<lparr>ident = Some 7, bbox = [0, 0, 1, 1]\<rparr>,
         \<lparr>ident = Some 9, bbox = [0, 0, 1, 1 :: rat]\<rparr>]"
  define B where "B = [\<lparr>ident = Some 2, bbox = [0, 0, 1, 1]\<rparr>, \<lparr>ident = Some 5, bbox = [0, 0, 1, 1 :: rat]\<rparr>]"
  define s where "s = (\<lambda>a. \<lparr>zoom_min = 1, zoom_max = 3, zoom_step = 1 / 10, zoom = 1, force_wide = False,
         active_target_id = Some a\<rparr>)"
  have ia: "ids_from 0 A = [3, 7, 9]" and ib: "ids_from 0 B = [2, 5]"
    by (simp_all add: A_def B_def identity_def)
  have d: "target_delta u \<noteq> 0" "A \<noteq> []" "B \<noteq> []" "C \<noteq> []"
    by (simp_all add: u_def A_def B_def C_def)
  have la: "length A = 3" by (simp add: A_def)
  have lc: "length C = 3" by (simp add: C_def)
  have c0: "ids_from 0 C ! 0 = 0" "ids_from 0 C ! 1 = 7" "ids_from 0 C ! 2 = 2"
    using target_cycling[OF d(1) d(4), of "s 7"] by (simp_all add: lc) (simp_all add: C_def)
  have "length (ids_from 0 C) = 3" using target_cycling[OF d(1) d(4), of "s 7"] by (simp add: lc)
  with c0 have ic: "ids_from 0 C = [0, 7, 2]"
    by (intro nth_equalityI) (auto simp add: nth_Cons' less_Suc_eq numeral_3_eq_3 numeral_2_eq_2)
  obtain s1 i where s1: "apply_joystick (Some u) A (s 7) = Inr s1"
    and i: "i < length A" "[3, 7, 9] ! i = (7::int)"
    and n1: "active_target_id s1 = Some ([3, 7, 9] ! nat ((int i + target_delta u) mod int (length A)))"
    using target_cycling[OF d(1) d(2), of "s 7"] by (auto simp add: ia s_def)
  from i(1) have "i = 0 \<or> i = 1 \<or> i = 2" unfolding la by arith
  with i(2) have "i = 1" by auto
  with n1 have a1: "active_target_id s1 = Some 9" by (simp add: la u_def)
  obtain s2 k where s2: "apply_joystick (Some u) A (s 9) = Inr s2"
    and k: "k < length A" "[3, 7, 9] ! k = (9::int)"
    and n2: "active_target_id s2 = Some ([3, 7, 9] ! nat ((int k + target_delta u) mod int (length A)))"
    using target_cycling[OF d(1) d(2), of "s 9"] by (auto simp add: ia s_def)
  from k(1) have "k = 0 \<or> k = 1 \<or> k = 2" unfolding la by arith
  with k(2) have "k = 2" by auto
  with n2 have a2: "active_target_id s2 = Some 3" by (simp add: la u_def)
  obtain s3 where s3: "apply_joystick (Some u) B (s 7) = Inr s3"
    and a3: "active_target_id s3 = Some 2"
    using target_cycling[OF d(1) d(3), of "s 7"] by (auto simp add: ib s_def)
  obtain s4 m where s4: "apply_joystick (Some u) C (s 7) = Inr s4"
    and m: "m < length C" "[0, 7, 2] ! m = (7::int)"
    and n4: "active_target_id s4 = Some ([0, 7, 2] ! nat ((int m + target_delta u) mod int (length C)))"
    using target_cycling[OF d(1) d(4), of "s 7"] by (auto simp add: ic s_def)
  from m(1) have "m = 0 \<or> m = 1 \<or> m = 2" unfolding lc by arith
  with m(2) have "m = 1" by auto
  with n4 have a4: "active_target_id s4 = Some 2" by (simp add: lc u_def)
  obtain s5 q where s5: "apply_joystick (Some u) C (s 2) = Inr s5"
    and q: "q < length C" "[0, 7, 2] ! q = (2::int)"
    and n5: "active_target_id s5 = Some ([0, 7, 2] ! nat ((int q + target_delta u) mod int (length C)))"
    using target_cycling[OF d(1) d(4), of "s 2"] by (auto simp add: ic s_def)
  from q(1) have "q = 0 \<or> q = 1 \<or> q = 2" unfolding lc by arith
  with q(2) have "q = 2" by auto
  with n5 have a5: "active_target_id s5 = Some 0" by (simp add: lc u_def)
  from s1 a1 s2 a2 s3 a3 s4 a4 s5 a5 ic show ?thesis
    by (simp add: u_def A_def B_def C_def s_def)
qed


text \<open>
  Claim C7 (zoom stays in range). When the configuration has
  \<open>zoom_min \<le> zoom_max\<close>, the zoom is within \<open>[zoom_min, zoom_max]\<close> after
  initialisation, and every call of the joystick handler (with or without a joystick,
  whatever the event and the detection list) raises nothing, keeps the three
  configuration values and keeps the zoom within the range. When moreover
  \<open>zoom_step\<close> is not negative, an event with \<open>zoom_delta = +1\<close> and without
  \<open>wide\<close>, received at \<open>zoom = zoom_max\<close>, leaves the zoom at \<open>zoom_max\<close>; as the
  configuration values are kept, this holds again for every further such event.
\<close>

theorem zoom_invariant:
  "(get_or 1 (cfg_zoom_min cfg) \<le> get_or 3 (cfg_zoom_max cfg) \<longrightarrow>
      zoom_min (ptz_init cfg) \<le> zoom_max (ptz_init cfg) \<and>
      zoom_min (ptz_init cfg) \<le> zoom (ptz_init cfg) \<and> zoom (ptz_init cfg) \<le> zoom_max (ptz_init cfg)) \<and>
   (zoom_min self \<le> zoom_max self \<and> zoom_min self \<le> zoom self \<and> zoom self \<le> zoom_max self \<longrightarrow>
      (\<exists>s'. apply_joystick j targets self = Inr s' \<and> zoom_min s' = zoom_min self \<and>
            zoom_max s' = zoom_max self \<and> zoom_step s' = zoom_step self \<and>
            zoom_min s' \<le> zoom s' \<and> zoom s' \<le> zoom_max s')) \<and>
   (zoom_min self \<le> zoom_max self \<and> 0 \<le> zoom_step self \<and> zoom self = zoom_max self \<and>
    zoom_delta u = 1 \<and> \<not> wide u \<longrightarrow>
      (\<exists>s'. apply_joystick (Some u) targets self = Inr s' \<and> zoom_min s' = zoom_min self \<and>
            zoom_max s' = zoom_max self \<and> zoom_step s' = zoom_step self \<and>
            zoom s' = zoom_max self))"
proof (intro conjI impI)
  assume "get_or 1 (cfg_zoom_min cfg) \<le> get_or 3 (cfg_zoom_max cfg)"
  then show "zoom_min (ptz_init cfg) \<le> zoom_max (ptz_init cfg)"
    "zoom_min (ptz_init cfg) \<le> zoom (ptz_init cfg)" "zoom (ptz_init cfg) \<le> zoom_max (ptz_init cfg)"
    by (simp_all add: ptz_init_def)
next
  assume "zoom_min self \<le> zoom_max self \<and> zoom_min self \<le> zoom self \<and> zoom self \<le> zoom_max self"
  then show "\<exists>s'. apply_joystick j targets self = Inr s' \<and> zoom_min s' = zoom_min self \<and>
            zoom_max s' = zoom_max self \<and> zoom_step s' = zoom_step self \<and>
            zoom_min s' \<le> zoom s' \<and> zoom s' \<le> zoom_max s'"
    using apply_joystick_zoom_range[of self j targets] by blast
next
  assume a: "zoom_min self \<le> zoom_max self \<and> 0 \<le> zoom_step self \<and> zoom self = zoom_max self \<and>
    zoom_delta u = 1 \<and> \<not> wide u"
  then have z: "zoom (apply_wide_zoom u self) = zoom_max self" using zoom_in_at_max by blast
  from apply_joystick_cases[of "Some u" targets self] a z
  show "\<exists>s'. apply_joystick (Some u) targets self = Inr s' \<and> zoom_min s' = zoom_min self \<and>
            zoom_max s' = zoom_max self \<and> zoom_step s' = zoom_step self \<and>
            zoom s' = zoom_max self"
    by auto
qed

theorem zoom_invariant_witness:
  "zoom (ptz_init \<lparr>cfg_zoom_min = None, cfg_zoom_max = None, cfg_zoom_step = None\<rparr>) = 1 \<and>
   map_sum id zoom
     (apply_joystick (Some \<lparr>target_delta = 0, zoom_delta = 1, wide = False\<rparr>) []
        \<lparr>zoom_min = 1, zoom_max = 3, zoom_step = 1 / 10, zoom = 3, force_wide = False,
         active_target_id = None\<rparr>) = Inr 3 \<and>
   map_sum id zoom
     (apply_joystick (Some \<lparr>target_delta = 0, zoom_delta = - 1, wide = False\<rparr>) []
        \<lparr>zoom_min = 1, zoom_max = 3, zoom_step = 1 / 10, zoom = 1, force_wide = False,
         active_target_id = None\<rparr>) = Inr 1"
proof -
  define cfg where "cfg = \<lparr>cfg_zoom_min = None, cfg_zoom_max = None, cfg_zoom_step = None\<rparr>"
  define u where "u = \<lparr>target_delta = 0, zoom_delta = 1, wide = False\<rparr>"
  define d where "d = \<lparr>target_delta = 0, zoom_delta = - 1, wide = False\<rparr>"
  define s where "s = (\<lambda>z. \<lparr>zoom_min = 1, zoom_max = 3, zoom_step = 1 / 10, zoom = z, force_wide = False,
         active_target_id = None\<rparr>)"
  have c: "get_or 1 (cfg_zoom_min cfg) \<le> get_or 3 (cfg_zoom_max cfg)"
    by (simp add: cfg_def get_or_def)
  with zoom_invariant[of cfg] have
    "zoom_min (ptz_init cfg) \<le> zoom (ptz_init cfg)" "zoom (ptz_init cfg) \<le> zoom_max (ptz_init cfg)"
    by blast+
  have one: "zoom (ptz_init cfg) = 1" by (simp add: ptz_init_def cfg_def get_or_def)
  have h: "zoom_min (s 3) \<le> zoom_max (s 3) \<and> 0 \<le> zoom_step (s 3) \<and> zoom (s 3) = zoom_max (s 3) \<and>
    zoom_delta u = 1 \<and> \<not> wide u" by (simp add: s_def u_def)
  with zoom_invariant[of cfg "s 3" "Some u" "[]" u] obtain s' where
    "apply_joystick (Some u) [] (s 3) = Inr s'" "zoom s' = zoom_max (s 3)" by blast
  then have two: "map_sum id zoom (apply_joystick (Some u) [] (s 3)) = Inr 3"
    by (simp add: s_def)
  have three: "map_sum id zoom (apply_joystick (Some d) [] (s 1)) = Inr 1"
    by (simp add: apply_joystick_def apply_wide_zoom_def d_def s_def)
  from one two three show ?thesis by (simp add: cfg_def u_def d_def s_def)
qed

text \<open>
  Two events with \<open>zoom_delta = +1\<close> received at \<open>zoom = zoom_max = 3\<close> that lower the
  zoom: with a negative \<open>zoom_step\<close> of \<open>-1\<close> the zoom becomes 2; with the default
  configuration and \<open>wide\<close> set in the same event, the zoom is first reset to
  \<open>zoom_min = 1\<close> and then raised by one step, to \<open>1.1\<close>.
\<close>

theorem zoom_in_at_max_counterexample:
  "apply_joystick (Some \<lparr>target_delta = 0, zoom_delta = 1, wide = False\<rparr>) []
     \<lparr>zoom_min = 1, zoom_max = 3, zoom_step = - 1, zoom = 3, force_wide = False,
      active_target_id = None\<rparr>
   = Inr \<lparr>zoom_min = 1, zoom_max = 3, zoom_step = - 1, zoom = 2, force_wide = False,
          active_target_id = None\<rparr> \<and>
   apply_joystick (Some \<lparr>target_delta = 0, zoom_delta = 1, wide = True\<rparr>) []
     \<lparr>zoom_min = 1, zoom_max = 3, zoom_step = 1 / 10, zoom = 3, force_wide = False,
      active_target_id = None\<rparr>
   = Inr \<lparr>zoom_min = 1, zoom_max = 3, zoom_step = 1 / 10, zoom = 11 / 10, force_wide = False,
          active_target_id = None\<rparr>"
  by (simp add: apply_joystick_def apply_wide_zoom_def)







text \<open>
  Claim C10 (what target cycling does to the wide flag). Let the event have a non-zero
  \<open>target_delta\<close> and the detection list be non-empty. When the active identity is one
  of the identities of the frame, the handler ends with \<open>force_wide = False\<close>. When it
  is not, the handler takes the first identity and returns at once: \<open>force_wide\<close> and
  \<open>zoom\<close> keep the values they had after the wide and zoom steps of the same call,
  which are their values at entry when the event has neither \<open>wide\<close> nor a
  \<open>zoom_delta\<close>.
\<close>

theorem cycling_exits_wide:
  assumes "target_delta u \<noteq> 0" "targets \<noteq> []"
  shows "((case active_target_id self of None \<Rightarrow> False | Some a \<Rightarrow> a \<in> set (ids_from 0 targets)) \<longrightarrow>
            (\<exists>s'. apply_joystick (Some u) targets self = Inr s' \<and> force_wide s' = False)) \<and>
         ((case active_target_id self of None \<Rightarrow> True | Some a \<Rightarrow> a \<notin> set (ids_from 0 targets)) \<longrightarrow>
            (\<exists>s'. apply_joystick (Some u) targets self = Inr s' \<and>
                  active_target_id s' = Some (ids_from 0 targets ! 0) \<and>
                  force_wide s' = force_wide (apply_wide_zoom u self) \<and>
                  zoom s' = zoom (apply_wide_zoom u self) \<and>
                  (\<not> wide u \<and> zoom_delta u = 0 \<longrightarrow>
                     force_wide s' = force_wide self \<and> zoom s' = zoom self)))"
proof (intro conjI impI)
  assume "case active_target_id self of None \<Rightarrow> False | Some a \<Rightarrow> a \<in> set (ids_from 0 targets)"
  then obtain a where a: "active_target_id self = Some a" "a \<in> set (ids_from 0 targets)"
    by (auto split: option.splits)
  from apply_joystick_cycle[OF assms a]
  show "\<exists>s'. apply_joystick (Some u) targets self = Inr s' \<and> force_wide s' = False"
    by auto
next
  assume b: "case active_target_id self of None \<Rightarrow> True | Some a \<Rightarrow> a \<notin> set (ids_from 0 targets)"
  have "ids_from 0 targets \<noteq> []" using assms(2) by (cases targets) simp_all
  then have h: "hd (ids_from 0 targets) = ids_from 0 targets ! 0" by (simp add: hd_conv_nth)
  from apply_joystick_snap[OF assms b] h apply_wide_zoom_idle[of u self]
  show "\<exists>s'. apply_joystick (Some u) targets self = Inr s' \<and>
                  active_target_id s' = Some (ids_from 0 targets ! 0) \<and>
                  force_wide s' = force_wide (apply_wide_zoom u self) \<and>
                  zoom s' = zoom (apply_wide_zoom u self) \<and>
                  (\<not> wide u \<and> zoom_delta u = 0 \<longrightarrow>
                     force_wide s' = force_wide self \<and> zoom s' = zoom self)"
    by auto
qed

theorem cycling_exits_wide_witness:
  "apply_joystick (Some \<lparr>target_delta = 1, zoom_delta = 0, wide = False\<rparr>)
     [\<lparr>ident = Some 3, bbox = [0, 0, 1, 1]\<rparr>, \<lparr>ident = Some 7, bbox = [0, 0, 1, 1]\<rparr>]
     \<lparr>zoom_min = 1, zoom_max = 3, zoom_step = 1 / 10, zoom = 1, force_wide = True,
      active_target_id = Some 7\<rparr>
   = Inr \<lparr>zoom_min = 1, zoom_max = 3, zoom_step = 1 / 10, zoom = 1, force_wide = False,
          active_target_id = Some 3\<rparr> \<and>
   apply_joystick (Some \<lparr>target_delta = 1, zoom_delta = 0, wide = False\<rparr>)
     [\<lparr>ident = Some 2, bbox = [0, 0, 1, 1]\<rparr>, \<lparr>ident = Some 5, bbox = [0, 0, 1, 1]\<rparr>]
     \<lparr>zoom_min = 1, zoom_max = 3, zoom_step = 1 / 10, zoom = 1, force_wide = True,
      active_target_id = Some 7\<rparr>
   = Inr \<lparr>zoom_min = 1, zoom_max = 3, zoom_step = 1 / 10, zoom = 1, force_wide = True,
          active_target_id = Some 2\<rparr>"
proof -
  define u where "u = \<lparr>target_delta = 1, zoom_delta = 0, wide = False\<rparr>"
  define A where "A = [\<lparr>ident = Some 3, bbox = [0, 0, 1, 1]\<rparr>, \<lparr>ident = Some 7, bbox = [0, 0, 1, 1 :: rat]\<rparr>]"
  define B where "B = [\<lparr>ident = Some 2, bbox = [0, 0, 1, 1]\<rparr>, \<lparr>ident = Some 5, bbox = [0, 0, 1, 1 :: rat]\<rparr>]"
  define s where "s = \<lparr>zoom_min = 1, zoom_max = 3, zoom_step = 1 / 10, zoom = 1, force_wide = True,
      active_target_id = Some 7\<rparr>"
  have ia: "ids_from 0 A = [3, 7]" and ib: "ids_from 0 B = [2, 5]"
    by (simp_all add: A_def B_def identity_def)
  have d: "target_delta u \<noteq> 0" "A \<noteq> []" "B \<noteq> []" by (simp_all add: u_def A_def B_def)
  have e1: "apply_joystick (Some u) A s = Inr (s\<lparr>active_target_id := Some 3, force_wide := False\<rparr>)"
    by (simp add: apply_joystick_def apply_wide_zoom_def Let_def identity_def u_def s_def A_def)
  have e2: "apply_joystick (Some u) B s = Inr (s\<lparr>active_target_id := Some 2\<rparr>)"
    by (simp add: apply_joystick_def apply_wide_zoom_def Let_def identity_def u_def s_def B_def)
  from cycling_exits_wide[OF d(1) d(2), of s] obtain s1 where
    "apply_joystick (Some u) A s = Inr s1" "force_wide s1 = False"
    by (auto simp add: ia s_def)
  moreover from cycling_exits_wide[OF d(1) d(3), of s] obtain s2 where
    "apply_joystick (Some u) B s = Inr s2" "force_wide s2 = force_wide s" "zoom s2 = zoom s"
    by (auto simp add: ib s_def u_def)
  ultimately show ?thesis using e1 e2 by (simp add: u_def A_def B_def s_def)
qed

end
